theory Spec2Isabelle
  imports Complex_Main
begin

section \<open>Python strings\<close>

text \<open>
  A Python \<open>str\<close> is a sequence of code points.  The model is \<open>string\<close>, with a
  \<open>char\<close> read as a code point below 256 (the Latin-1 range), and the character
  classes are those of CPython on that range: whitespace as \<open>str.isspace\<close>,
  \<open>str.split\<close>, \<open>str.strip\<close> and the regular expression class \<open>\s\<close> see it, word
  characters as the class \<open>\w\<close> sees them (alphanumeric or underscore), and
  \<open>str.lower\<close> acting on each code point.
\<close>

definition is_space :: "char \<Rightarrow> bool" where
  "is_space c =
     (let n = (of_char c :: nat)
      in (9 \<le> n \<and> n \<le> 13) \<or> (28 \<le> n \<and> n \<le> 32) \<or> n = 133 \<or> n = 160)"

definition is_word :: "char \<Rightarrow> bool" where
  "is_word c =
     (let n = (of_char c :: nat)
      in (48 \<le> n \<and> n \<le> 57) \<or> (65 \<le> n \<and> n \<le> 90) \<or> n = 95 \<or> (97 \<le> n \<and> n \<le> 122)
         \<or> n = 170 \<or> n = 178 \<or> n = 179 \<or> n = 181 \<or> n = 185 \<or> n = 186
         \<or> (188 \<le> n \<and> n \<le> 190) \<or> (192 \<le> n \<and> n \<le> 214)
         \<or> (216 \<le> n \<and> n \<le> 246) \<or> (248 \<le> n \<and> n \<le> 255))"

definition lower_char :: "char \<Rightarrow> char" where
  "lower_char c =
     (let n = (of_char c :: nat)
      in if (65 \<le> n \<and> n \<le> 90) \<or> (192 \<le> n \<and> n \<le> 214) \<or> (216 \<le> n \<and> n \<le> 222)
         then char_of (n + 32) else c)"

text \<open>\<open>s.lower()\<close>\<close>

definition py_lower :: "string \<Rightarrow> string" where
  "py_lower s = map lower_char s"

text \<open>\<open>s.strip()\<close>\<close>

definition py_strip :: "string \<Rightarrow> string" where
  "py_strip s = rev (dropWhile is_space (rev (dropWhile is_space s)))"

text \<open>\<open>s.split()\<close>: the maximal runs of non-whitespace characters, in order.\<close>

function py_split :: "string \<Rightarrow> string list" where
  "py_split s =
     (case dropWhile is_space s of
        [] \<Rightarrow> []
      | c # cs \<Rightarrow> takeWhile (\<lambda>x. \<not> is_space x) (c # cs)
                  # py_split (dropWhile (\<lambda>x. \<not> is_space x) (c # cs)))"
  by pat_completeness auto
termination
proof (relation "measure length")
  fix s c cs
  assume h: "dropWhile is_space s = c # cs"
  have "\<not> is_space c" using h by (metis hd_dropWhile list.sel(1) list.distinct(1))
  hence "dropWhile (\<lambda>x. \<not> is_space x) (c # cs) = dropWhile (\<lambda>x. \<not> is_space x) cs" by simp
  moreover have "length (dropWhile (\<lambda>x. \<not> is_space x) cs) \<le> length cs"
    by (rule length_dropWhile_le)
  moreover have "length (c # cs) \<le> length s" using h by (metis length_dropWhile_le)
  ultimately show "(dropWhile (\<lambda>x. \<not> is_space x) (c # cs), s) \<in> measure length" by simp
qed simp

declare py_split.simps [simp del]

text \<open>\<open>' '.join(ws)\<close>\<close>

fun join_sp :: "string list \<Rightarrow> string" where
  "join_sp [] = []"
| "join_sp [w] = w"
| "join_sp (w # v # ws) = w @ CHR '' '' # join_sp (v # ws)"

text \<open>
  Truthiness of an optional string (\<open>if paper.doi:\<close>): \<open>None\<close> and the empty string are
  false.  Truthiness of an optional integer (\<open>if p.year\<close>): \<open>None\<close> and 0 are false.
\<close>

definition truthy :: "string option \<Rightarrow> bool" where
  "truthy v = (case v of None \<Rightarrow> False | Some s \<Rightarrow> s \<noteq> [])"

definition truthy_int :: "int option \<Rightarrow> bool" where
  "truthy_int v = (case v of None \<Rightarrow> False | Some n \<Rightarrow> n \<noteq> 0)"


section \<open>Result discipline (backend/utils/result.py)\<close>

datatype ('t, 'e) Result = Ok 't | Err 'e

fun is_ok :: "('t, 'e) Result \<Rightarrow> bool" where
  "is_ok (Ok v) = True"
| "is_ok (Err e) = False"

fun is_err :: "('t, 'e) Result \<Rightarrow> bool" where
  "is_err (Ok v) = False"
| "is_err (Err e) = True"

text \<open>
  \<open>unwrap\<close> returns the value of an \<open>Ok\<close> and Python's \<open>None\<close> for an \<open>Err\<close>.  Its
  result is therefore a value that may be \<open>None\<close>: an option type, whose \<open>None\<close> is
  Python's \<open>None\<close>.
\<close>

fun unwrap :: "('t option, 'e) Result \<Rightarrow> 't option" where
  "unwrap (Ok v) = v"
| "unwrap (Err e) = None"

fun unwrap_or :: "('t, 'e) Result \<Rightarrow> 't \<Rightarrow> 't" where
  "unwrap_or (Ok v) d = v"
| "unwrap_or (Err e) d = d"

section \<open>Paper model (backend/models/paper.py)\<close>

datatype AccessType = OPEN | PAYWALLED | UNKNOWN_ACCESS

datatype SourceType =
  PEER_REVIEWED | PREPRINT | CONFERENCE | THESIS | BOOK_CHAPTER | GREY_LITERATURE | UNKNOWN_SOURCE

record Author =
  author_name :: string
  affiliation :: "string option"
  orcid :: "string option"

text \<open>Python floats are modelled as real numbers: rounding is not part of the model.\<close>

record ReliabilityScore =
  peer_review :: real
  journal_score :: real
  citations :: real
  verification :: real
  recency :: real
  is_retracted :: bool
  contradictions :: "string list"

definition total_score :: "ReliabilityScore \<Rightarrow> real" where
  "total_score rs =
     (if is_retracted rs then 0
      else
        (let base = peer_review rs + journal_score rs + citations rs + verification rs + recency rs;
             penalty = real (length (contradictions rs)) * 0.05
         in max 0 (min 1 (base - penalty))))"

text \<open>The default \<open>ReliabilityScore()\<close>.\<close>

definition default_reliability :: ReliabilityScore where
  "default_reliability =
     \<lparr>peer_review = 0, journal_score = 0, citations = 0, verification = 0, recency = 0,
      is_retracted = False, contradictions = []\<rparr>"

record Paper =
  paper_id :: string
  title :: string
  authors :: "Author list"
  year :: "int option"
  journal :: "string option"
  publisher :: "string option"
  volume :: "string option"
  issue :: "string option"
  pages :: "string option"
  doi :: "string option"
  pmid :: "string option"
  pmcid :: "string option"
  arxiv_id :: "string option"
  abstract :: "string option"
  keywords_of :: "string list"
  citation_count :: int
  reference_count :: int
  access_type :: AccessType
  pdf_url :: "string option"
  html_url :: "string option"
  source :: string
  source_type :: SourceType
  sources_found_in :: "string list"
  reliability :: ReliabilityScore
  urls :: "string \<rightharpoonup> string"
  relevance_score :: real

text \<open>
  The field \<open>id\<close> is \<open>paper_id\<close> and the field \<open>keywords\<close> is \<open>keywords_of\<close> here.
  \<open>new_paper i t\<close> is \<open>Paper(id=i, title=t)\<close>: every other field at its dataclass default.
\<close>

definition new_paper :: "string \<Rightarrow> string \<Rightarrow> Paper" where
  "new_paper i t =
     \<lparr>paper_id = i, title = t, authors = [], year = None, journal = None, publisher = None,
      volume = None, issue = None, pages = None, doi = None, pmid = None, pmcid = None,
      arxiv_id = None, abstract = None, keywords_of = [], citation_count = 0, reference_count = 0,
      access_type = UNKNOWN_ACCESS, pdf_url = None, html_url = None, source = [],
      source_type = UNKNOWN_SOURCE, sources_found_in = [], reliability = default_reliability,
      urls = Map.empty, relevance_score = 0\<rparr>"

text \<open>The property \<open>Paper.reliability_score\<close>.\<close>

definition reliability_score :: "Paper \<Rightarrow> real" where
  "reliability_score p = total_score (reliability p)"

section \<open>Token bucket (backend/utils/rate_limiter.py)\<close>

datatype py_error = ZeroDivisionError

record TokenBucket =
  capacity :: real
  tokens :: real
  refill_rate :: real
  last_refill :: real

text \<open>\<open>TokenBucket.__init__\<close>; the clock reading \<open>time.time()\<close> is the argument \<open>now\<close>.\<close>

definition new_bucket :: "real \<Rightarrow> real \<Rightarrow> TokenBucket" where
  "new_bucket requests_per_second now =
     \<lparr>capacity = requests_per_second, tokens = requests_per_second,
      refill_rate = requests_per_second, last_refill = now\<rparr>"

definition refill :: "real \<Rightarrow> TokenBucket \<Rightarrow> TokenBucket" where
  "refill now b =
     (let elapsed = now - last_refill b
      in b\<lparr>tokens := min (capacity b) (tokens b + elapsed * refill_rate b), last_refill := now\<rparr>)"

text \<open>
  \<open>take\<close> returns the mutated bucket together with either the wait time or the
  exception: Python's float division raises \<open>ZeroDivisionError\<close> on a zero divisor, after
  the refill has already been written to the bucket.
\<close>

definition take_token :: "real \<Rightarrow> TokenBucket \<Rightarrow> TokenBucket \<times> (py_error + real)" where
  "take_token now b =
     (let b1 = refill now b
      in if tokens b1 \<ge> 1 then (b1\<lparr>tokens := tokens b1 - 1\<rparr>, Inr 0)
         else if refill_rate b1 = 0 then (b1, Inl ZeroDivisionError)
         else (b1, Inr ((1 - tokens b1) / refill_rate b1)))"

definition zero_bucket :: TokenBucket where
  "zero_bucket = new_bucket 0 0"

section \<open>Adapters (backend/adapters)\<close>

subsection \<open>Paged search (ArXivAdapter.search)\<close>






subsection \<open>Keywords set by the parsers\<close>








section \<open>Orchestrator (backend/core/orchestrator.py)\<close>

subsection \<open>Title normalization\<close>

definition stopwords :: "string list" where
  "stopwords = [''the'', ''a'', ''an'', ''and'', ''or'', ''of'', ''in'', ''on'', ''for'', ''to'', ''with'']"

definition normalize_title :: "string \<Rightarrow> string" where
  "normalize_title t =
     (if t = [] then []
      else
        (let t1 = py_lower t;
             t2 = filter (\<lambda>c. is_word c \<or> is_space c) t1;
             t3 = join_sp (py_split t2);
             ws = filter (\<lambda>w. w \<notin> set stopwords) (py_split t3)
         in join_sp ws))"

text \<open>A word as \<open>split\<close> produces it: not empty and free of whitespace.\<close>

definition word_ok :: "string \<Rightarrow> bool" where
  "word_ok w = (w \<noteq> [] \<and> (\<forall>c \<in> set w. \<not> is_space c))"

text \<open>The content words that a normalized title is joined from.\<close>

definition title_words :: "string \<Rightarrow> string list" where
  "title_words t =
     filter (\<lambda>w. w \<notin> set stopwords)
       (py_split (filter (\<lambda>c. is_word c \<or> is_space c) (py_lower t)))"

subsection \<open>Merge\<close>

text \<open>
  \<open>for x in src: if x not in tgt: tgt.append(x)\<close>: the membership test sees the
  elements already appended.
\<close>

definition append_new :: "'a list \<Rightarrow> 'a list \<Rightarrow> 'a list" where
  "append_new tgt src = foldl (\<lambda>acc x. if x \<in> set acc then acc else acc @ [x]) tgt src"

text \<open>
  \<open>_merge(target, source)\<close> mutates \<open>target\<close>; the model returns the new target.
  Each assignment of the source writes one field and reads, of the target, only the
  field it writes, so the sequence of assignments is one record update.
\<close>

definition merge :: "Paper \<Rightarrow> Paper \<Rightarrow> Paper" where
  "merge target src =
     target\<lparr>
       sources_found_in := append_new (sources_found_in target) (sources_found_in src),
       citation_count :=
         (if citation_count src > citation_count target then citation_count src
          else citation_count target),
       doi := (if \<not> truthy (doi target) \<and> truthy (doi src) then doi src else doi target),
       pmid := (if \<not> truthy (pmid target) \<and> truthy (pmid src) then pmid src else pmid target),
       arxiv_id :=
         (if \<not> truthy (arxiv_id target) \<and> truthy (arxiv_id src) then arxiv_id src
          else arxiv_id target),
       abstract :=
         (if \<not> truthy (abstract target) \<and> truthy (abstract src) then abstract src
          else abstract target),
       keywords_of := append_new (keywords_of target) (keywords_of src),
       urls := urls target ++ urls src,
       access_type := (if access_type src = OPEN then OPEN else access_type target),
       pdf_url :=
         (if access_type src = OPEN \<and> truthy (pdf_url src) then pdf_url src
          else pdf_url target)\<rparr>"

subsection \<open>Deduplication\<close>

text \<open>
  \<open>_deduplicate\<close> keeps references to the paper objects in four dictionaries and in
  the list \<open>unique\<close>, and \<open>_merge\<close> mutates the object a dictionary refers to.  The model
  keeps the objects in a store: the paper at position \<open>i\<close> of the input is object \<open>i\<close>,
  entered in the store when the loop reaches it; the dictionaries and \<open>unique\<close> hold
  positions.  Every element of the input list is an object of its own, as the parsers
  build them, and no two papers share a list or dictionary.
\<close>

record dedup_state =
  store :: "Paper list"
  by_doi :: "string \<rightharpoonup> nat"
  by_pmid :: "string \<rightharpoonup> nat"
  by_arxiv :: "string \<rightharpoonup> nat"
  by_title :: "string \<rightharpoonup> nat"
  unique :: "nat list"

definition dedup_init :: dedup_state where
  "dedup_init =
     \<lparr>store = [], by_doi = Map.empty, by_pmid = Map.empty, by_arxiv = Map.empty,
      by_title = Map.empty, unique = []\<rparr>"

text \<open>The keys of a paper: \<open>doi.lower().strip()\<close>, \<open>pmid.strip()\<close>, \<open>arxiv_id.lower().strip()\<close>.\<close>

definition doi_key :: "Paper \<Rightarrow> string" where
  "doi_key p = (case doi p of None \<Rightarrow> [] | Some d \<Rightarrow> py_strip (py_lower d))"

definition pmid_key :: "Paper \<Rightarrow> string" where
  "pmid_key p = (case pmid p of None \<Rightarrow> [] | Some d \<Rightarrow> py_strip d)"

definition arxiv_key :: "Paper \<Rightarrow> string" where
  "arxiv_key p = (case arxiv_id p of None \<Rightarrow> [] | Some d \<Rightarrow> py_strip (py_lower d))"

definition title_key :: "Paper \<Rightarrow> string" where
  "title_key p = normalize_title (title p)"

text \<open>
  The four checks of the loop body, for the paper \<open>paper\<close> that is object \<open>n\<close>; each takes
  and returns the state and the flag \<open>merged\<close>.
\<close>

definition check_doi :: "nat \<Rightarrow> Paper \<Rightarrow> dedup_state \<times> bool \<Rightarrow> dedup_state \<times> bool" where
  "check_doi n paper sm =
     (case sm of (st, merged) \<Rightarrow>
        if truthy (doi paper) then
          (let key = doi_key paper
           in case by_doi st key of
                Some t \<Rightarrow> (st\<lparr>store := (store st)[t := merge (store st ! t) paper]\<rparr>, True)
              | None \<Rightarrow> (st\<lparr>by_doi := (by_doi st)(key \<mapsto> n)\<rparr>, merged))
        else (st, merged))"

definition check_pmid :: "nat \<Rightarrow> Paper \<Rightarrow> dedup_state \<times> bool \<Rightarrow> dedup_state \<times> bool" where
  "check_pmid n paper sm =
     (case sm of (st, merged) \<Rightarrow>
        if \<not> merged \<and> truthy (pmid paper) then
          (let key = pmid_key paper
           in case by_pmid st key of
                Some t \<Rightarrow> (st\<lparr>store := (store st)[t := merge (store st ! t) paper]\<rparr>, True)
              | None \<Rightarrow> (st\<lparr>by_pmid := (by_pmid st)(key \<mapsto> n)\<rparr>, merged))
        else (st, merged))"

definition check_arxiv :: "nat \<Rightarrow> Paper \<Rightarrow> dedup_state \<times> bool \<Rightarrow> dedup_state \<times> bool" where
  "check_arxiv n paper sm =
     (case sm of (st, merged) \<Rightarrow>
        if \<not> merged \<and> truthy (arxiv_id paper) then
          (let key = arxiv_key paper
           in case by_arxiv st key of
                Some t \<Rightarrow> (st\<lparr>store := (store st)[t := merge (store st ! t) paper]\<rparr>, True)
              | None \<Rightarrow> (st\<lparr>by_arxiv := (by_arxiv st)(key \<mapsto> n)\<rparr>, merged))
        else (st, merged))"

definition check_title :: "nat \<Rightarrow> Paper \<Rightarrow> dedup_state \<times> bool \<Rightarrow> dedup_state \<times> bool" where
  "check_title n paper sm =
     (case sm of (st, merged) \<Rightarrow>
        if \<not> merged then
          (let key = title_key paper
           in case by_title st key of
                Some t \<Rightarrow> (st\<lparr>store := (store st)[t := merge (store st ! t) paper]\<rparr>, True)
              | None \<Rightarrow> (st\<lparr>by_title := (by_title st)(key \<mapsto> n)\<rparr>, merged))
        else (st, merged))"

text \<open>One iteration of \<open>for paper in papers\<close>.\<close>

definition dedup_step :: "dedup_state \<Rightarrow> Paper \<Rightarrow> dedup_state" where
  "dedup_step st paper =
     (let n = length (store st);
          st0 = st\<lparr>store := store st @ [paper]\<rparr>
      in case check_title n paper (check_arxiv n paper (check_pmid n paper
                (check_doi n paper (st0, False)))) of
           (st4, merged) \<Rightarrow> if \<not> merged then st4\<lparr>unique := unique st4 @ [n]\<rparr> else st4)"

definition dedup_run :: "Paper list \<Rightarrow> dedup_state" where
  "dedup_run papers = foldl dedup_step dedup_init papers"

text \<open>The positions, in the input, of the papers that \<open>unique\<close> holds at the end.\<close>

definition survivors :: "Paper list \<Rightarrow> nat list" where
  "survivors papers = unique (dedup_run papers)"

text \<open>\<open>_deduplicate\<close> returns \<open>unique\<close>: the objects it refers to, as they are at the end.\<close>

definition deduplicate :: "Paper list \<Rightarrow> Paper list" where
  "deduplicate papers = map (\<lambda>i. store (dedup_run papers) ! i) (survivors papers)"

text \<open>
  The object that a check of the loop body merges the incoming paper into, if any: the
  first of the four dictionaries, in the order of the checks, that holds the paper's key.
\<close>

definition merge_target :: "dedup_state \<Rightarrow> Paper \<Rightarrow> nat option" where
  "merge_target st p =
     (if truthy (doi p) \<and> by_doi st (doi_key p) \<noteq> None then by_doi st (doi_key p)
      else if truthy (pmid p) \<and> by_pmid st (pmid_key p) \<noteq> None then by_pmid st (pmid_key p)
      else if truthy (arxiv_id p) \<and> by_arxiv st (arxiv_key p) \<noteq> None
        then by_arxiv st (arxiv_key p)
      else by_title st (title_key p))"

text \<open>A list of papers in which no identifier key and no normalized title occurs twice.\<close>

definition dup_free :: "Paper list \<Rightarrow> bool" where
  "dup_free ps =
     (distinct (map doi_key (filter (\<lambda>p. truthy (doi p)) ps))
      \<and> distinct (map pmid_key (filter (\<lambda>p. truthy (pmid p)) ps))
      \<and> distinct (map arxiv_key (filter (\<lambda>p. truthy (arxiv_id p)) ps))
      \<and> distinct (map title_key ps))"

text \<open>
  Invariants of the loop, for the state reached after the papers \<open>ps\<close>.  Structure:
  the store holds one object per paper, the dictionaries and \<open>unique\<close> refer to objects
  of the store, titles never change, and an identifier a paper arrived with is never
  overwritten.  Registration: every object in \<open>unique\<close> is the entry of its title key
  and of the keys of the PMID and arXiv id it arrived with.  DOI: a \<open>by_doi\<close> entry has
  the DOI it is filed under, every DOI in the store is a key of \<open>by_doi\<close>, and no two
  objects in \<open>unique\<close> have the same DOI key.
\<close>

definition inv_struct :: "Paper list \<Rightarrow> dedup_state \<Rightarrow> bool" where
  "inv_struct ps st =
     (length (store st) = length ps
      \<and> (\<forall>i \<in> set (unique st). i < length ps)
      \<and> distinct (unique st)
      \<and> (\<forall>k t. by_doi st k = Some t \<longrightarrow> t < length ps)
      \<and> (\<forall>k t. by_pmid st k = Some t \<longrightarrow> t < length ps)
      \<and> (\<forall>k t. by_arxiv st k = Some t \<longrightarrow> t < length ps)
      \<and> (\<forall>k t. by_title st k = Some t \<longrightarrow> t < length ps)
      \<and> (\<forall>i < length ps. title (store st ! i) = title (ps ! i))
      \<and> (\<forall>i < length ps. truthy (pmid (ps ! i)) \<longrightarrow> pmid (store st ! i) = pmid (ps ! i))
      \<and> (\<forall>i < length ps. truthy (arxiv_id (ps ! i))
            \<longrightarrow> arxiv_id (store st ! i) = arxiv_id (ps ! i)))"

definition inv_reg :: "Paper list \<Rightarrow> dedup_state \<Rightarrow> bool" where
  "inv_reg ps st =
     (\<forall>i \<in> set (unique st).
        by_title st (title_key (ps ! i)) = Some i
        \<and> (truthy (pmid (ps ! i)) \<longrightarrow> by_pmid st (pmid_key (ps ! i)) = Some i)
        \<and> (truthy (arxiv_id (ps ! i)) \<longrightarrow> by_arxiv st (arxiv_key (ps ! i)) = Some i))"

definition inv_doi :: "dedup_state \<Rightarrow> bool" where
  "inv_doi st =
     ((\<forall>k t. by_doi st k = Some t
          \<longrightarrow> truthy (doi (store st ! t)) \<and> doi_key (store st ! t) = k)
      \<and> (\<forall>i < length (store st). truthy (doi (store st ! i))
            \<longrightarrow> by_doi st (doi_key (store st ! i)) \<noteq> None)
      \<and> (\<forall>i \<in> set (unique st). \<forall>j \<in> set (unique st).
            i \<noteq> j \<and> truthy (doi (store st ! i)) \<and> truthy (doi (store st ! j))
            \<longrightarrow> doi_key (store st ! i) \<noteq> doi_key (store st ! j)))"

text \<open>
  The state \<open>_deduplicate\<close> reaches on a list without duplicates: nothing merged, every
  key of every paper entered.
\<close>

definition key_doms :: "Paper list \<Rightarrow> dedup_state \<Rightarrow> bool" where
  "key_doms ps st =
     (store st = ps \<and> unique st = [0..<length ps]
      \<and> dom (by_doi st) = doi_key ` {p \<in> set ps. truthy (doi p)}
      \<and> dom (by_pmid st) = pmid_key ` {p \<in> set ps. truthy (pmid p)}
      \<and> dom (by_arxiv st) = arxiv_key ` {p \<in> set ps. truthy (arxiv_id p)}
      \<and> dom (by_title st) = title_key ` set ps)"



definition ex_doi_only :: Paper where
  "ex_doi_only = (new_paper ''openalex_W1'' ''Alpha'')\<lparr>doi := Some ''10.1/d''\<rparr>"

definition ex_doi_pmid :: Paper where
  "ex_doi_pmid = (new_paper ''pubmed_1'' ''Beta'')\<lparr>doi := Some ''10.1/D'', pmid := Some ''1''\<rparr>"

definition ex_pmid_only :: Paper where
  "ex_pmid_only = (new_paper ''europmc_1'' ''Gamma'')\<lparr>pmid := Some ''1''\<rparr>"

definition backfill_input :: "Paper list" where
  "backfill_input = [ex_doi_only, ex_doi_pmid, ex_pmid_only]"

definition ex_title_a :: Paper where
  "ex_title_a = (new_paper ''crossref_10.1/a'' ''Deep Learning'')\<lparr>doi := Some ''10.1/a''\<rparr>"

definition ex_title_b :: Paper where
  "ex_title_b = (new_paper ''crossref_10.1/b'' ''The deep learning.'')\<lparr>doi := Some ''10.1/b''\<rparr>"

definition same_title_input :: "Paper list" where
  "same_title_input = [ex_title_a, ex_title_b]"

definition ex_full_a :: Paper where
  "ex_full_a =
     (new_paper ''s2_a'' ''Alpha'')
       \<lparr>doi := Some ''10.1/a'', pmid := Some ''11'', arxiv_id := Some ''2301.00001''\<rparr>"

definition ex_full_b :: Paper where
  "ex_full_b =
     (new_paper ''s2_b'' ''Beta'')
       \<lparr>doi := Some ''10.1/b'', pmid := Some ''12'', arxiv_id := Some ''2301.00002''\<rparr>"

definition distinct_input :: "Paper list" where
  "distinct_input = [ex_full_a, ex_full_b]"

definition repeat_input :: "Paper list" where
  "repeat_input = [ex_full_a, ex_full_b, ex_full_a]"

subsection \<open>Filters of \<open>search\<close> (lines 217 to 228)\<close>

record SearchConfig =
  max_per_source :: int
  expand_citations :: bool
  citation_depth :: int
  include_preprints :: bool
  min_reliability :: real
  year_start :: "int option"
  year_end :: "int option"

text \<open>The default \<open>SearchConfig()\<close>.\<close>

definition default_config :: SearchConfig where
  "default_config =
     \<lparr>max_per_source = 100, expand_citations = True, citation_depth = 1,
      include_preprints = True, min_reliability = 0, year_start = None, year_end = None\<rparr>"

text \<open>\<open>p.year and p.year >= bound\<close>, \<open>p.year and p.year <= bound\<close>\<close>

definition year_at_least :: "int \<Rightarrow> Paper \<Rightarrow> bool" where
  "year_at_least bound p = (case year p of None \<Rightarrow> False | Some y \<Rightarrow> y \<noteq> 0 \<and> y \<ge> bound)"

definition year_at_most :: "int \<Rightarrow> Paper \<Rightarrow> bool" where
  "year_at_most bound p = (case year p of None \<Rightarrow> False | Some y \<Rightarrow> y \<noteq> 0 \<and> y \<le> bound)"

definition apply_filters :: "SearchConfig \<Rightarrow> Paper list \<Rightarrow> Paper list" where
  "apply_filters config ranked_papers =
     (let r1 = (if min_reliability config > 0
                then filter (\<lambda>p. reliability_score p \<ge> min_reliability config) ranked_papers
                else ranked_papers);
          r2 = (case year_start config of
                  None \<Rightarrow> r1
                | Some s \<Rightarrow> if s \<noteq> 0 then filter (year_at_least s) r1 else r1);
          r3 = (case year_end config of
                  None \<Rightarrow> r2
                | Some e \<Rightarrow> if e \<noteq> 0 then filter (year_at_most e) r2 else r2)
      in if \<not> include_preprints config
         then filter (\<lambda>p. source_type p \<noteq> PREPRINT) r3 else r3)"

text \<open>
  The filters as the specification words them, applied in its order: year range, then
  minimum reliability, then preprint exclusion.  The year test is a parameter.
\<close>

definition reliability_ok :: "SearchConfig \<Rightarrow> Paper \<Rightarrow> bool" where
  "reliability_ok config p = (\<not> reliability_score p < min_reliability config)"

definition preprint_ok :: "SearchConfig \<Rightarrow> Paper \<Rightarrow> bool" where
  "preprint_ok config p = (include_preprints config \<or> source_type p \<noteq> PREPRINT)"

definition filters_in_spec_order ::
  "(SearchConfig \<Rightarrow> Paper \<Rightarrow> bool) \<Rightarrow> SearchConfig \<Rightarrow> Paper list \<Rightarrow> Paper list" where
  "filters_in_spec_order year_test config ranked_papers =
     filter (preprint_ok config) (filter (reliability_ok config) (filter (year_test config) ranked_papers))"

text \<open>
  The specification's year test: a bound is set when it is not \<open>None\<close>, a paper has a
  year when it is not \<open>None\<close>; a paper passes when no bound is set, or it has a year
  within the bounds that are set.
\<close>

definition spec_year_ok :: "SearchConfig \<Rightarrow> Paper \<Rightarrow> bool" where
  "spec_year_ok config p =
     (if year_start config = None \<and> year_end config = None then True
      else (case year p of
              None \<Rightarrow> False
            | Some y \<Rightarrow> (case year_start config of None \<Rightarrow> True | Some s \<Rightarrow> s \<le> y)
                       \<and> (case year_end config of None \<Rightarrow> True | Some e \<Rightarrow> y \<le> e)))"

text \<open>
  The year test with a bound of 0 counted as not set and a year of 0 counted as no year.
\<close>

definition nonzero_year_ok :: "SearchConfig \<Rightarrow> Paper \<Rightarrow> bool" where
  "nonzero_year_ok config p =
     (if \<not> truthy_int (year_start config) \<and> \<not> truthy_int (year_end config) then True
      else (case year p of
              None \<Rightarrow> False
            | Some y \<Rightarrow> y \<noteq> 0
                       \<and> (case year_start config of
                            None \<Rightarrow> True | Some s \<Rightarrow> if s = 0 then True else s \<le> y)
                       \<and> (case year_end config of
                            None \<Rightarrow> True | Some e \<Rightarrow> if e = 0 then True else y \<le> e)))"

text \<open>Example configurations and a ranked list.\<close>

definition zero_start_config :: SearchConfig where
  "zero_start_config = default_config\<lparr>year_start := Some 0\<rparr>"

definition strict_config :: SearchConfig where
  "strict_config =
     default_config\<lparr>include_preprints := False, min_reliability := 1/2,
                     year_start := Some 2000, year_end := Some 2020\<rparr>"

definition ex_ranked :: "Paper list" where
  "ex_ranked =
     [(new_paper ''pubmed_1'' ''Alpha'')
        \<lparr>year := Some 2010, source_type := PEER_REVIEWED,
         reliability := default_reliability\<lparr>peer_review := 3/10, journal_score := 2/10,
                                              verification := 1/10\<rparr>\<rparr>,
      (new_paper ''arxiv_2'' ''Beta'')
        \<lparr>year := Some 2015, source_type := PREPRINT,
         reliability := default_reliability\<lparr>peer_review := 3/10, journal_score := 2/10,
                                              verification := 1/10\<rparr>\<rparr>,
      (new_paper ''core_3'' ''Gamma'') \<lparr>year := Some 2010, source_type := THESIS\<rparr>,
      (new_paper ''base_4'' ''Delta'')
        \<lparr>source_type := PEER_REVIEWED,
         reliability := default_reliability\<lparr>peer_review := 3/10, journal_score := 2/10,
                                              verification := 1/10\<rparr>\<rparr>,
      (new_paper ''crossref_5'' ''Epsilon'')
        \<lparr>year := Some 1990, source_type := PEER_REVIEWED,
         reliability := default_reliability\<lparr>peer_review := 3/10, journal_score := 2/10,
                                              verification := 1/10\<rparr>\<rparr>]"

section \<open>Theorems\<close>

subsection \<open>Result\<close>

text \<open>
  C10: \<open>unwrap\<close> on a failed result returns \<open>None\<close> for every error value; the error is
  not surfaced, and the value returned is the one \<open>Ok(None).unwrap()\<close> returns.
\<close>

theorem C10_err_unwrap_none:
  "unwrap (Err e) = None \<and> unwrap (Err e) = unwrap (Ok None) \<and> \<not> is_ok (Err e)"
  by simp

subsection \<open>Reliability total\<close>

text \<open>
  C2: a retracted score has total 0 whatever its components; otherwise the total is the
  sum of the five components minus 0.05 per contradiction, clamped to the interval from
  0 to 1.  In both cases the total lies between 0 and 1.
\<close>

theorem C2_total_clamped:
  "total_score rs =
     (if is_retracted rs then 0
      else max 0 (min 1 (peer_review rs + journal_score rs + citations rs + verification rs
                          + recency rs - 0.05 * real (length (contradictions rs)))))
   \<and> 0 \<le> total_score rs \<and> total_score rs \<le> 1"
  by (simp add: total_score_def Let_def mult.commute)

subsection \<open>Token bucket\<close>

text \<open>
  C9 fails at a bucket built with rate 0: the refilled token count is 0, below 1, and
  the division that computes the wait raises instead of returning.
\<close>

theorem C9_zero_rate_counterexample:
  "capacity zero_bucket = refill_rate zero_bucket
   \<and> last_refill zero_bucket \<le> 1
   \<and> tokens (refill 1 zero_bucket) < 1
   \<and> snd (take_token 1 zero_bucket) = Inl ZeroDivisionError
   \<and> snd (take_token 1 zero_bucket)
       \<noteq> Inr ((1 - tokens (refill 1 zero_bucket)) / refill_rate zero_bucket)"
  by (simp add: zero_bucket_def new_bucket_def take_token_def refill_def)

text \<open>
  C9 (amended): for a bucket with capacity = refill rate, a non-zero refill rate and a
  clock reading not before the last refill, \<open>take\<close> first sets the tokens to
  min(capacity, tokens + elapsed * rate) (and records the time); if that is at least 1
  it subtracts 1 and returns wait 0, otherwise it returns wait (1 - tokens) / rate and
  leaves the refilled token count as it is.
\<close>

theorem C9_take_refills_then_takes:
  assumes "capacity b = refill_rate b" and "last_refill b \<le> now" and "refill_rate b \<noteq> 0"
  shows "take_token now b =
     (let t = min (capacity b) (tokens b + (now - last_refill b) * refill_rate b)
      in if t \<ge> 1 then (b\<lparr>tokens := t - 1, last_refill := now\<rparr>, Inr 0)
         else (b\<lparr>tokens := t, last_refill := now\<rparr>, Inr ((1 - t) / refill_rate b)))"
  using assms by (simp add: take_token_def refill_def Let_def)

theorem C9_take_witness:
  "capacity (new_bucket (1/2) 0) = refill_rate (new_bucket (1/2) 0)
   \<and> last_refill (new_bucket (1/2) 0) \<le> 1
   \<and> refill_rate (new_bucket (1/2) 0) \<noteq> 0
   \<and> take_token 1 (new_bucket (1/2) 0)
       = (\<lparr>capacity = 1/2, tokens = 1/2, refill_rate = 1/2, last_refill = 1\<rparr>, Inr 1)"
  using C9_take_refills_then_takes [of "new_bucket (1/2) 0" 1]
  by (simp add: new_bucket_def Let_def)

subsection \<open>Title normalization\<close>

lemma lower_char_idem: "lower_char (lower_char c) = lower_char c"
  by (auto simp: lower_char_def Let_def)

lemma py_lower_idem: "py_lower (py_lower s) = py_lower s"
  by (simp add: py_lower_def lower_char_idem)

lemma is_space_blank: "is_space (CHR '' '')"
  by (simp add: is_space_def)

lemma lower_char_blank: "lower_char (CHR '' '') = CHR '' ''"
  by (simp add: lower_char_def)

lemma py_split_Nil: "py_split [] = []"
  by (simp add: py_split.simps)

lemma py_split_words: "w \<in> set (py_split s) \<Longrightarrow> word_ok w \<and> set w \<subseteq> set s"
proof (induction s rule: py_split.induct)
  case (1 s)
  show ?case
  proof (cases "dropWhile is_space s")
    case Nil
    with "1.prems" show ?thesis by (simp add: py_split.simps)
  next
    case (Cons c cs)
    have nc: "\<not> is_space c" using Cons by (metis hd_dropWhile list.sel(1) list.distinct(1))
    have sub: "set (c # cs) \<subseteq> set s" using set_dropWhileD [of _ is_space s] Cons by auto
    let ?w = "takeWhile (\<lambda>x. \<not> is_space x) (c # cs)"
    let ?r = "dropWhile (\<lambda>x. \<not> is_space x) (c # cs)"
    have split: "py_split s = ?w # py_split ?r"
      using Cons by (subst py_split.simps) simp
    from "1.prems" split consider (hd) "w = ?w" | (tl) "w \<in> set (py_split ?r)" by auto
    then show ?thesis
    proof cases
      case hd
      have a: "?w \<noteq> []" using nc by simp
      have b: "\<forall>x \<in> set ?w. \<not> is_space x" using set_takeWhileD by fastforce
      have c: "set ?w \<subseteq> set (c # cs)" using set_takeWhileD by fastforce
      have "word_ok ?w" using a b unfolding word_ok_def by blast
      moreover have "set ?w \<subseteq> set s" using c sub by (rule subset_trans)
      ultimately show ?thesis unfolding hd by (rule conjI)
    next
      case tl
      then have ih: "word_ok w \<and> set w \<subseteq> set ?r" using "1.IH" Cons by simp
      have "set ?r \<subseteq> set (c # cs)" using set_dropWhileD by fastforce
      then have "set ?r \<subseteq> set s" using sub by (rule subset_trans)
      then show ?thesis using ih by blast
    qed
  qed
qed

lemma py_split_word_app:
  assumes "word_ok w"
  shows "py_split (w @ CHR '' '' # r) = w # py_split r"
proof -
  obtain c cs where w: "w = c # cs" using assms by (cases w) (auto simp: word_ok_def)
  have ns: "\<forall>x \<in> set w. \<not> is_space x" using assms by (simp add: word_ok_def)
  have d: "dropWhile is_space (w @ CHR '' '' # r) = w @ CHR '' '' # r"
    using w ns by simp
  have t: "takeWhile (\<lambda>x. \<not> is_space x) (w @ CHR '' '' # r) = w"
    using ns by (simp add: takeWhile_append2 is_space_blank)
  have dd: "dropWhile (\<lambda>x. \<not> is_space x) (w @ CHR '' '' # r) = CHR '' '' # r"
    using ns by (simp add: dropWhile_append2 is_space_blank)
  have "py_split (w @ CHR '' '' # r) = w # py_split (CHR '' '' # r)"
    using d t dd w by (subst py_split.simps) simp
  moreover have "py_split (CHR '' '' # r) = py_split r"
    by (subst py_split.simps, subst (2) py_split.simps) (simp add: is_space_blank)
  ultimately show ?thesis by simp
qed

lemma py_split_single:
  assumes "word_ok w"
  shows "py_split w = [w]"
proof -
  obtain c cs where w: "w = c # cs" using assms by (cases w) (auto simp: word_ok_def)
  have ns: "\<forall>x \<in> set w. \<not> is_space x" using assms by (simp add: word_ok_def)
  have d: "dropWhile is_space w = w" using w ns by simp
  have t: "takeWhile (\<lambda>x. \<not> is_space x) w = w" using ns by simp
  have dd: "dropWhile (\<lambda>x. \<not> is_space x) w = []" using ns by simp
  show ?thesis using d t dd w by (subst py_split.simps) (simp add: py_split_Nil)
qed

lemma py_split_join: "\<forall>w \<in> set ws. word_ok w \<Longrightarrow> py_split (join_sp ws) = ws"
proof (induction ws rule: join_sp.induct)
  case 1
  show ?case by (simp add: py_split_Nil)
next
  case (2 w)
  then show ?case by (simp add: py_split_single)
next
  case (3 w v ws)
  then show ?case by (simp add: py_split_word_app)
qed

lemma set_join_sp: "set (join_sp ws) \<subseteq> insert (CHR '' '') (\<Union> (set ` set ws))"
  by (induction ws rule: join_sp.induct) auto

lemma py_split_idem: "py_split (join_sp (py_split s)) = py_split s"
  by (rule py_split_join) (simp add: py_split_words)

lemma normalize_title_words:
  "normalize_title t = (if t = [] then [] else join_sp (title_words t))"
  by (simp add: normalize_title_def title_words_def Let_def py_split_idem)

lemma title_words_ok: "w \<in> set (title_words t) \<Longrightarrow> word_ok w"
  by (auto simp: title_words_def dest: py_split_words)

lemma title_words_chars:
  assumes "w \<in> set (title_words t)" and "c \<in> set w"
  shows "lower_char c = c \<and> (is_word c \<or> is_space c)"
proof -
  from assms(1) have "w \<in> set (py_split (filter (\<lambda>c. is_word c \<or> is_space c) (py_lower t)))"
    by (simp add: title_words_def)
  then have "set w \<subseteq> set (filter (\<lambda>c. is_word c \<or> is_space c) (py_lower t))"
    using py_split_words by blast
  with assms(2) have "c \<in> set (py_lower t)" and "is_word c \<or> is_space c" by auto
  then show ?thesis by (auto simp: py_lower_def lower_char_idem)
qed

lemma title_words_join:
  "title_words (join_sp (title_words t)) = title_words t"
proof -
  let ?ws = "title_words t"
  let ?r = "join_sp ?ws"
  have chars: "\<forall>c \<in> set ?r. lower_char c = c \<and> (is_word c \<or> is_space c)"
  proof
    fix c assume "c \<in> set ?r"
    then have "c = CHR '' '' \<or> (\<exists>w \<in> set ?ws. c \<in> set w)"
      using set_join_sp [of ?ws] by auto
    then show "lower_char c = c \<and> (is_word c \<or> is_space c)"
      using title_words_chars [of _ t] by (auto simp: is_space_blank lower_char_blank)
  qed
  have "py_lower ?r = ?r" using chars by (simp add: py_lower_def map_idI)
  moreover have "filter (\<lambda>c. is_word c \<or> is_space c) ?r = ?r" using chars by simp
  moreover have "py_split ?r = ?ws" by (rule py_split_join) (simp add: title_words_ok)
  moreover have "filter (\<lambda>w. w \<notin> set stopwords) ?ws = ?ws" by (simp add: title_words_def)
  ultimately show ?thesis by (simp add: title_words_def)
qed

text \<open>
  C8: normalizing an already normalized title changes nothing, for every string.
\<close>

theorem C8_normalize_title_idempotent:
  "normalize_title (normalize_title t) = normalize_title t"
  by (simp add: normalize_title_words title_words_join)

subsection \<open>Deduplication\<close>

subsection \<open>Merge, field by field\<close>

lemma merge_title: "title (merge t s) = title t"
  by (simp add: merge_def)

lemma merge_doi:
  "doi (merge t s) = (if \<not> truthy (doi t) \<and> truthy (doi s) then doi s else doi t)"
  by (simp add: merge_def)

lemma merge_pmid:
  "pmid (merge t s) = (if \<not> truthy (pmid t) \<and> truthy (pmid s) then pmid s else pmid t)"
  by (simp add: merge_def)

lemma merge_arxiv_id:
  "arxiv_id (merge t s) = (if \<not> truthy (arxiv_id t) \<and> truthy (arxiv_id s) then arxiv_id s else arxiv_id t)"
  by (simp add: merge_def)


lemma doi_key_cong: "doi p = doi q \<Longrightarrow> doi_key p = doi_key q"
  by (simp add: doi_key_def)

lemma title_key_merge: "title_key (merge t s) = title_key t"
  by (simp add: title_key_def merge_title)

subsection \<open>One step of the loop, field by field\<close>

lemmas step_defs = dedup_step_def check_doi_def check_pmid_def check_arxiv_def check_title_def
  merge_target_def Let_def

lemma step_unique:
  "unique (dedup_step st p) =
     (case merge_target st p of None \<Rightarrow> unique st @ [length (store st)] | Some t \<Rightarrow> unique st)"
  by (simp add: step_defs split: option.splits)

lemma step_store:
  "store (dedup_step st p) =
     (case merge_target st p of
        None \<Rightarrow> store st @ [p]
      | Some t \<Rightarrow> (store st @ [p])[t := merge ((store st @ [p]) ! t) p])"
  by (simp add: step_defs split: option.splits)

lemma step_by_doi:
  "by_doi (dedup_step st p) =
     (if truthy (doi p) \<and> by_doi st (doi_key p) = None
      then (by_doi st)(doi_key p \<mapsto> length (store st)) else by_doi st)"
  by (simp add: step_defs split: option.splits)

lemma step_by_pmid:
  "by_pmid (dedup_step st p) =
     (if \<not> (truthy (doi p) \<and> by_doi st (doi_key p) \<noteq> None)
         \<and> truthy (pmid p) \<and> by_pmid st (pmid_key p) = None
      then (by_pmid st)(pmid_key p \<mapsto> length (store st)) else by_pmid st)"
  by (simp add: step_defs split: option.splits)

lemma step_by_arxiv:
  "by_arxiv (dedup_step st p) =
     (if \<not> (truthy (doi p) \<and> by_doi st (doi_key p) \<noteq> None)
         \<and> \<not> (truthy (pmid p) \<and> by_pmid st (pmid_key p) \<noteq> None)
         \<and> truthy (arxiv_id p) \<and> by_arxiv st (arxiv_key p) = None
      then (by_arxiv st)(arxiv_key p \<mapsto> length (store st)) else by_arxiv st)"
  by (simp add: step_defs split: option.splits)

lemma step_by_title:
  "by_title (dedup_step st p) =
     (if \<not> (truthy (doi p) \<and> by_doi st (doi_key p) \<noteq> None)
         \<and> \<not> (truthy (pmid p) \<and> by_pmid st (pmid_key p) \<noteq> None)
         \<and> \<not> (truthy (arxiv_id p) \<and> by_arxiv st (arxiv_key p) \<noteq> None)
         \<and> by_title st (title_key p) = None
      then (by_title st)(title_key p \<mapsto> length (store st)) else by_title st)"
  by (simp add: step_defs split: option.splits)

lemma target_None:
  assumes "merge_target st p = None"
  shows "(truthy (doi p) \<longrightarrow> by_doi st (doi_key p) = None)"
    and "(truthy (pmid p) \<longrightarrow> by_pmid st (pmid_key p) = None)"
    and "(truthy (arxiv_id p) \<longrightarrow> by_arxiv st (arxiv_key p) = None)"
    and "by_title st (title_key p) = None"
  using assms by (auto simp: merge_target_def split: if_splits)

lemma target_Some:
  assumes "merge_target st p = Some t"
  shows "by_doi st (doi_key p) = Some t \<and> truthy (doi p)
         \<or> (truthy (doi p) \<longrightarrow> by_doi st (doi_key p) = None)
            \<and> (by_pmid st (pmid_key p) = Some t \<or> by_arxiv st (arxiv_key p) = Some t
                \<or> by_title st (title_key p) = Some t)"
  using assms by (auto simp: merge_target_def split: if_splits)

lemma step_by_doi_dom: "truthy (doi p) \<Longrightarrow> by_doi (dedup_step st p) (doi_key p) \<noteq> None"
  by (simp add: step_by_doi)

lemma step_by_doi_cases:
  assumes "by_doi (dedup_step st p) k = Some t"
  shows "by_doi st k = Some t
         \<or> (t = length (store st) \<and> k = doi_key p \<and> truthy (doi p) \<and> by_doi st k = None)"
  using assms by (auto simp: step_by_doi split: if_splits)

lemma step_by_pmid_cases:
  assumes "by_pmid (dedup_step st p) k = Some t"
  shows "by_pmid st k = Some t
         \<or> (t = length (store st) \<and> k = pmid_key p \<and> truthy (pmid p) \<and> by_pmid st k = None)"
  using assms by (auto simp: step_by_pmid split: if_splits)

lemma step_by_arxiv_cases:
  assumes "by_arxiv (dedup_step st p) k = Some t"
  shows "by_arxiv st k = Some t
         \<or> (t = length (store st) \<and> k = arxiv_key p \<and> truthy (arxiv_id p) \<and> by_arxiv st k = None)"
  using assms by (auto simp: step_by_arxiv split: if_splits)

lemma step_by_title_cases:
  assumes "by_title (dedup_step st p) k = Some t"
  shows "by_title st k = Some t
         \<or> (t = length (store st) \<and> k = title_key p \<and> by_title st k = None)"
  using assms by (auto simp: step_by_title split: if_splits)

lemma step_by_doi_mono: "by_doi st k = Some t \<Longrightarrow> by_doi (dedup_step st p) k = Some t"
  by (auto simp: step_by_doi)

lemma step_by_pmid_mono: "by_pmid st k = Some t \<Longrightarrow> by_pmid (dedup_step st p) k = Some t"
  by (auto simp: step_by_pmid)

lemma step_by_arxiv_mono: "by_arxiv st k = Some t \<Longrightarrow> by_arxiv (dedup_step st p) k = Some t"
  by (auto simp: step_by_arxiv)

lemma step_by_title_mono: "by_title st k = Some t \<Longrightarrow> by_title (dedup_step st p) k = Some t"
  by (auto simp: step_by_title)

lemma step_new_title:
  "merge_target st p = None \<Longrightarrow> by_title (dedup_step st p) (title_key p) = Some (length (store st))"
  by (auto simp: step_by_title dest: target_None)

lemma step_new_pmid:
  "merge_target st p = None \<Longrightarrow> truthy (pmid p)
    \<Longrightarrow> by_pmid (dedup_step st p) (pmid_key p) = Some (length (store st))"
  by (auto simp: step_by_pmid dest: target_None)

lemma step_new_arxiv:
  "merge_target st p = None \<Longrightarrow> truthy (arxiv_id p)
    \<Longrightarrow> by_arxiv (dedup_step st p) (arxiv_key p) = Some (length (store st))"
  by (auto simp: step_by_arxiv dest: target_None)


subsection \<open>Invariants of the loop\<close>

lemma target_lt:
  assumes "inv_struct ps st" and "merge_target st p = Some t"
  shows "t < length ps"
  using target_Some [OF assms(2)] assms(1) unfolding inv_struct_def by blast

lemma step_store_len: "length (store (dedup_step st p)) = Suc (length (store st))"
  by (simp add: step_store split: option.splits)

lemma step_store_last:
  assumes "inv_struct ps st"
  shows "store (dedup_step st p) ! length ps = p"
proof (cases "merge_target st p")
  case None
  then show ?thesis using assms by (simp add: step_store inv_struct_def nth_append)
next
  case (Some t)
  then have "t < length ps" using assms target_lt by blast
  then show ?thesis using assms Some by (simp add: step_store inv_struct_def nth_append)
qed

lemma step_store_nth:
  assumes "inv_struct ps st" and "i < length ps"
  shows "store (dedup_step st p) ! i =
           (if merge_target st p = Some i then merge (store st ! i) p else store st ! i)"
proof (cases "merge_target st p")
  case None
  then show ?thesis using assms by (simp add: step_store inv_struct_def nth_append)
next
  case (Some t)
  then have "t < length ps" using assms target_lt by blast
  then show ?thesis using assms Some
    by (simp add: step_store inv_struct_def nth_append nth_list_update)
qed

lemma step_store_title:
  assumes "inv_struct ps st" and "i < length ps"
  shows "title (store (dedup_step st p) ! i) = title (store st ! i)"
  using step_store_nth [OF assms] by (simp add: merge_title)

lemma step_store_pmid:
  assumes "inv_struct ps st" and "i < length ps" and "truthy (pmid (store st ! i))"
  shows "pmid (store (dedup_step st p) ! i) = pmid (store st ! i)"
  using step_store_nth [OF assms(1,2)] assms(3) by (simp add: merge_pmid)

lemma step_store_arxiv:
  assumes "inv_struct ps st" and "i < length ps" and "truthy (arxiv_id (store st ! i))"
  shows "arxiv_id (store (dedup_step st p) ! i) = arxiv_id (store st ! i)"
  using step_store_nth [OF assms(1,2)] assms(3) by (simp add: merge_arxiv_id)

lemma step_store_doi:
  assumes "inv_struct ps st" and "i < length ps" and "truthy (doi (store st ! i))"
  shows "doi (store (dedup_step st p) ! i) = doi (store st ! i)"
  using step_store_nth [OF assms(1,2)] assms(3) by (simp add: merge_doi)

lemma step_unique_set:
  "i \<in> set (unique (dedup_step st p))
    \<Longrightarrow> i \<in> set (unique st) \<or> (i = length (store st) \<and> merge_target st p = None)"
  by (auto simp: step_unique split: option.splits)

lemma inv_struct_step:
  assumes "inv_struct ps st"
  shows "inv_struct (ps @ [p]) (dedup_step st p)"
proof -
  let ?st = "dedup_step st p"
  have len: "length (store st) = length ps" using assms by (simp add: inv_struct_def)
  have u: "\<forall>i \<in> set (unique st). i < length ps" using assms by (simp add: inv_struct_def)
  have d: "distinct (unique st)" using assms by (simp add: inv_struct_def)
  have rd: "\<And>k t. by_doi st k = Some t \<Longrightarrow> t < length ps"
    using assms unfolding inv_struct_def by blast
  have rp: "\<And>k t. by_pmid st k = Some t \<Longrightarrow> t < length ps"
    using assms unfolding inv_struct_def by blast
  have ra: "\<And>k t. by_arxiv st k = Some t \<Longrightarrow> t < length ps"
    using assms unfolding inv_struct_def by blast
  have rt: "\<And>k t. by_title st k = Some t \<Longrightarrow> t < length ps"
    using assms unfolding inv_struct_def by blast
  have 1: "length (store ?st) = length (ps @ [p])" by (simp add: step_store_len len)
  have 2: "\<forall>i \<in> set (unique ?st). i < length (ps @ [p])"
  proof
    fix i assume "i \<in> set (unique ?st)"
    then have "i \<in> set (unique st) \<or> i = length (store st)" using step_unique_set by blast
    then show "i < length (ps @ [p])" using u len by auto
  qed
  have 3: "distinct (unique ?st)"
  proof (cases "merge_target st p")
    case None
    have "length ps \<notin> set (unique st)" using u by auto
    then show ?thesis using None d len by (simp add: step_unique)
  next
    case (Some t)
    then show ?thesis using d by (simp add: step_unique)
  qed
  have 4: "\<forall>k t. by_doi ?st k = Some t \<longrightarrow> t < length (ps @ [p])"
  proof (intro allI impI)
    fix k t assume "by_doi ?st k = Some t"
    then have "by_doi st k = Some t \<or> t = length (store st)" using step_by_doi_cases by blast
    then show "t < length (ps @ [p])" using rd [of k t] len by auto
  qed
  have 5: "\<forall>k t. by_pmid ?st k = Some t \<longrightarrow> t < length (ps @ [p])"
  proof (intro allI impI)
    fix k t assume "by_pmid ?st k = Some t"
    then have "by_pmid st k = Some t \<or> t = length (store st)" using step_by_pmid_cases by blast
    then show "t < length (ps @ [p])" using rp [of k t] len by auto
  qed
  have 6: "\<forall>k t. by_arxiv ?st k = Some t \<longrightarrow> t < length (ps @ [p])"
  proof (intro allI impI)
    fix k t assume "by_arxiv ?st k = Some t"
    then have "by_arxiv st k = Some t \<or> t = length (store st)" using step_by_arxiv_cases by blast
    then show "t < length (ps @ [p])" using ra [of k t] len by auto
  qed
  have 7: "\<forall>k t. by_title ?st k = Some t \<longrightarrow> t < length (ps @ [p])"
  proof (intro allI impI)
    fix k t assume "by_title ?st k = Some t"
    then have "by_title st k = Some t \<or> t = length (store st)" using step_by_title_cases by blast
    then show "t < length (ps @ [p])" using rt [of k t] len by auto
  qed
  have 8: "\<forall>i < length (ps @ [p]). title (store ?st ! i) = title ((ps @ [p]) ! i)"
  proof (intro allI impI)
    fix i assume "i < length (ps @ [p])"
    then consider "i < length ps" | "i = length ps" by force
    then show "title (store ?st ! i) = title ((ps @ [p]) ! i)"
    proof cases
      case 1
      then have "title (store st ! i) = title (ps ! i)" using assms unfolding inv_struct_def by blast
      then show ?thesis using 1 step_store_title [OF assms 1] by (simp add: nth_append)
    next
      case 2
      then show ?thesis using step_store_last [OF assms] by simp
    qed
  qed
  have 9: "\<forall>i < length (ps @ [p]). truthy (pmid ((ps @ [p]) ! i))
             \<longrightarrow> pmid (store ?st ! i) = pmid ((ps @ [p]) ! i)"
  proof (intro allI impI)
    fix i assume "i < length (ps @ [p])" and t: "truthy (pmid ((ps @ [p]) ! i))"
    then consider "i < length ps" | "i = length ps" by force
    then show "pmid (store ?st ! i) = pmid ((ps @ [p]) ! i)"
    proof cases
      case 1
      then have "truthy (pmid (ps ! i))" using t by (simp add: nth_append)
      then have e: "pmid (store st ! i) = pmid (ps ! i)"
        using assms 1 unfolding inv_struct_def by blast
      then have "truthy (pmid (store st ! i))" using \<open>truthy (pmid (ps ! i))\<close> by simp
      then show ?thesis using 1 e step_store_pmid [OF assms 1] by (simp add: nth_append)
    next
      case 2
      then show ?thesis using step_store_last [OF assms] by simp
    qed
  qed
  have 10: "\<forall>i < length (ps @ [p]). truthy (arxiv_id ((ps @ [p]) ! i))
             \<longrightarrow> arxiv_id (store ?st ! i) = arxiv_id ((ps @ [p]) ! i)"
  proof (intro allI impI)
    fix i assume "i < length (ps @ [p])" and t: "truthy (arxiv_id ((ps @ [p]) ! i))"
    then consider "i < length ps" | "i = length ps" by force
    then show "arxiv_id (store ?st ! i) = arxiv_id ((ps @ [p]) ! i)"
    proof cases
      case 1
      then have "truthy (arxiv_id (ps ! i))" using t by (simp add: nth_append)
      then have e: "arxiv_id (store st ! i) = arxiv_id (ps ! i)"
        using assms 1 unfolding inv_struct_def by blast
      then have "truthy (arxiv_id (store st ! i))" using \<open>truthy (arxiv_id (ps ! i))\<close> by simp
      then show ?thesis using 1 e step_store_arxiv [OF assms 1] by (simp add: nth_append)
    next
      case 2
      then show ?thesis using step_store_last [OF assms] by simp
    qed
  qed
  show ?thesis unfolding inv_struct_def
    apply (intro conjI)
    apply (fact 1) apply (fact 2) apply (fact 3) apply (fact 4) apply (fact 5)
    apply (fact 6) apply (fact 7) apply (fact 8) apply (fact 9) apply (fact 10)
    done
qed

lemma step_unique_cases:
  assumes "i \<in> set (unique (dedup_step st p))"
  obtains (old) "i \<in> set (unique st)"
    | (new) "i = length (store st)" "merge_target st p = None"
  using step_unique_set [OF assms] by auto

lemma inv_reg_step:
  assumes "inv_struct ps st" and "inv_reg ps st"
  shows "inv_reg (ps @ [p]) (dedup_step st p)"
proof (unfold inv_reg_def, intro ballI)
  let ?st = "dedup_step st p"
  fix i assume "i \<in> set (unique ?st)"
  then show "by_title ?st (title_key ((ps @ [p]) ! i)) = Some i
        \<and> (truthy (pmid ((ps @ [p]) ! i)) \<longrightarrow> by_pmid ?st (pmid_key ((ps @ [p]) ! i)) = Some i)
        \<and> (truthy (arxiv_id ((ps @ [p]) ! i))
             \<longrightarrow> by_arxiv ?st (arxiv_key ((ps @ [p]) ! i)) = Some i)"
  proof (cases rule: step_unique_cases)
    case old
    then have lt: "i < length ps" using assms(1) unfolding inv_struct_def by blast
    have e: "(ps @ [p]) ! i = ps ! i" using lt by (simp add: nth_append)
    from old assms(2) have
      "by_title st (title_key (ps ! i)) = Some i"
      "truthy (pmid (ps ! i)) \<longrightarrow> by_pmid st (pmid_key (ps ! i)) = Some i"
      "truthy (arxiv_id (ps ! i)) \<longrightarrow> by_arxiv st (arxiv_key (ps ! i)) = Some i"
      unfolding inv_reg_def by blast+
    then show ?thesis unfolding e
      using step_by_title_mono [of st _ i p] step_by_pmid_mono [of st _ i p]
        step_by_arxiv_mono [of st _ i p] by blast
  next
    case new
    have len: "length (store st) = length ps" using assms(1) by (simp add: inv_struct_def)
    have e: "(ps @ [p]) ! i = p" using new(1) len by simp
    show ?thesis unfolding e
      using step_new_title [OF new(2)] step_new_pmid [OF new(2)] step_new_arxiv [OF new(2)]
        new(1) by simp
  qed
qed


lemma inv_doi_step:
  assumes s: "inv_struct ps st" and d: "inv_doi st"
  shows "inv_doi (dedup_step st p)"
proof -
  let ?st = "dedup_step st p"
  let ?n = "length (store st)"
  have len: "length (store st) = length ps" using s by (simp add: inv_struct_def)
  have d1: "\<And>k t. by_doi st k = Some t \<Longrightarrow> truthy (doi (store st ! t)) \<and> doi_key (store st ! t) = k"
    using d unfolding inv_doi_def by fast
  have d2: "\<And>i. i < length ps \<Longrightarrow> truthy (doi (store st ! i))
              \<Longrightarrow> by_doi st (doi_key (store st ! i)) \<noteq> None"
    using d len unfolding inv_doi_def by fastforce
  have d3: "\<And>i j. i \<in> set (unique st) \<Longrightarrow> j \<in> set (unique st) \<Longrightarrow> i \<noteq> j
              \<Longrightarrow> truthy (doi (store st ! i)) \<Longrightarrow> truthy (doi (store st ! j))
              \<Longrightarrow> doi_key (store st ! i) \<noteq> doi_key (store st ! j)"
    using d unfolding inv_doi_def by fast
  have rd: "\<And>k t. by_doi st k = Some t \<Longrightarrow> t < length ps"
    using s unfolding inv_struct_def by fast
  have u: "\<And>i. i \<in> set (unique st) \<Longrightarrow> i < length ps"
    using s unfolding inv_struct_def by fast
  have last: "store ?st ! ?n = p" using step_store_last [OF s] len by simp
  \<comment> \<open>The DOI of an object met before: unchanged, or back-filled from the incoming paper.\<close>
  have old_doi: "doi (store ?st ! i) = doi (store st ! i)
                  \<or> (merge_target st p = Some i \<and> \<not> truthy (doi (store st ! i))
                      \<and> truthy (doi p) \<and> doi (store ?st ! i) = doi p
                      \<and> by_doi st (doi_key p) = None)"
    if lt: "i < length ps" for i
  proof (cases "merge_target st p = Some i \<and> \<not> truthy (doi (store st ! i)) \<and> truthy (doi p)")
    case False
    then show ?thesis using step_store_nth [OF s lt, of p] by (auto simp: merge_doi)
  next
    case True
    then have e: "doi (store ?st ! i) = doi p"
      using step_store_nth [OF s lt, of p] by (simp add: merge_doi)
    have "by_doi st (doi_key p) = None"
    proof (rule ccontr)
      assume "by_doi st (doi_key p) \<noteq> None"
      then obtain t where t: "by_doi st (doi_key p) = Some t" by auto
      then have "merge_target st p = Some t" using True by (simp add: merge_target_def)
      then have "t = i" using True by simp
      then show False using d1 [OF t] True by simp
    qed
    then show ?thesis using True e by simp
  qed
  have 1: "\<forall>k t. by_doi ?st k = Some t
             \<longrightarrow> truthy (doi (store ?st ! t)) \<and> doi_key (store ?st ! t) = k"
  proof (intro allI impI)
    fix k t assume h: "by_doi ?st k = Some t"
    from step_by_doi_cases [OF h] show "truthy (doi (store ?st ! t)) \<and> doi_key (store ?st ! t) = k"
    proof
      assume o: "by_doi st k = Some t"
      then have lt: "t < length ps" by (rule rd)
      have tr: "truthy (doi (store st ! t))" and k: "doi_key (store st ! t) = k"
        using d1 [OF o] by simp_all
      have "doi (store ?st ! t) = doi (store st ! t)" using step_store_doi [OF s lt tr] .
      then show ?thesis using tr k doi_key_cong [of "store ?st ! t" "store st ! t"] by simp
    next
      assume "t = ?n \<and> k = doi_key p \<and> truthy (doi p) \<and> by_doi st k = None"
      then show ?thesis using last by simp
    qed
  qed
  have 2: "\<forall>i < length (store ?st). truthy (doi (store ?st ! i))
             \<longrightarrow> by_doi ?st (doi_key (store ?st ! i)) \<noteq> None"
  proof (intro allI impI)
    fix i assume "i < length (store ?st)" and tr: "truthy (doi (store ?st ! i))"
    then consider (lt) "i < length ps" | (eq) "i = ?n" using len by (auto simp: step_store_len less_Suc_eq)
    then show "by_doi ?st (doi_key (store ?st ! i)) \<noteq> None"
    proof cases
      case eq
      then show ?thesis using tr last step_by_doi_dom [of p st] by simp
    next
      case lt
      from old_doi [OF lt] show ?thesis
      proof
        assume e: "doi (store ?st ! i) = doi (store st ! i)"
        then have "by_doi st (doi_key (store st ! i)) \<noteq> None" using d2 [OF lt] tr by simp
        then obtain t where "by_doi st (doi_key (store st ! i)) = Some t" by auto
        then have "by_doi ?st (doi_key (store st ! i)) = Some t" by (rule step_by_doi_mono)
        then show ?thesis using doi_key_cong [OF e] by simp
      next
        assume b: "merge_target st p = Some i \<and> \<not> truthy (doi (store st ! i))
                      \<and> truthy (doi p) \<and> doi (store ?st ! i) = doi p
                      \<and> by_doi st (doi_key p) = None"
        then have "doi_key (store ?st ! i) = doi_key p" using doi_key_cong by blast
        then show ?thesis using b step_by_doi_dom [of p st] by simp
      qed
    qed
  qed
  \<comment> \<open>A key that \<open>by_doi\<close> does not hold yet is the key of no object met before.\<close>
  have fresh: "doi_key (store st ! j) \<noteq> k"
    if "by_doi st k = None" and "j < length ps" and "truthy (doi (store st ! j))" for j k
    using d2 [OF that(2,3)] that(1) by auto
  have 3: "\<forall>i \<in> set (unique ?st). \<forall>j \<in> set (unique ?st).
             i \<noteq> j \<and> truthy (doi (store ?st ! i)) \<and> truthy (doi (store ?st ! j))
             \<longrightarrow> doi_key (store ?st ! i) \<noteq> doi_key (store ?st ! j)"
  proof -
    have pair: "doi_key (store ?st ! i) \<noteq> doi_key (store ?st ! j)"
      if i: "i \<in> set (unique ?st)" and j: "j \<in> set (unique st)" and ne: "i \<noteq> j"
        and ti: "truthy (doi (store ?st ! i))" and tj: "truthy (doi (store ?st ! j))" for i j
    proof -
      have ltj: "j < length ps" using j by (rule u)
      from i show ?thesis
      proof (cases rule: step_unique_cases)
        case new
        have ip: "store ?st ! i = p" using new(1) last by simp
        have none: "by_doi st (doi_key p) = None"
          using target_None(1) [OF new(2)] ti ip by simp
        have "merge_target st p \<noteq> Some j" using new(2) by simp
        then have ej: "doi (store ?st ! j) = doi (store st ! j)" using old_doi [OF ltj] by blast
        then have "truthy (doi (store st ! j))" using tj by simp
        then have "doi_key (store st ! j) \<noteq> doi_key p" using fresh [OF none ltj] by simp
        then show ?thesis using ip doi_key_cong [OF ej] by simp
      next
        case old
        have lti: "i < length ps" using old by (rule u)
        from old_doi [OF lti] show ?thesis
        proof
          assume ei: "doi (store ?st ! i) = doi (store st ! i)"
          from old_doi [OF ltj] show ?thesis
          proof
            assume ej: "doi (store ?st ! j) = doi (store st ! j)"
            have "doi_key (store st ! i) \<noteq> doi_key (store st ! j)"
              using d3 [OF old j ne] ti tj ei ej by simp
            then show ?thesis using doi_key_cong [OF ei] doi_key_cong [OF ej] by simp
          next
            assume b: "merge_target st p = Some j \<and> \<not> truthy (doi (store st ! j))
                      \<and> truthy (doi p) \<and> doi (store ?st ! j) = doi p
                      \<and> by_doi st (doi_key p) = None"
            then have kj: "doi_key (store ?st ! j) = doi_key p" using doi_key_cong by blast
            have "truthy (doi (store st ! i))" using ti ei by simp
            then have "doi_key (store st ! i) \<noteq> doi_key p" using fresh [OF _ lti] b by blast
            then show ?thesis using kj doi_key_cong [OF ei] by simp
          qed
        next
          assume b: "merge_target st p = Some i \<and> \<not> truthy (doi (store st ! i))
                      \<and> truthy (doi p) \<and> doi (store ?st ! i) = doi p
                      \<and> by_doi st (doi_key p) = None"
          then have ki: "doi_key (store ?st ! i) = doi_key p" using doi_key_cong by blast
          have "merge_target st p \<noteq> Some j" using b ne by simp
          then have ej: "doi (store ?st ! j) = doi (store st ! j)" using old_doi [OF ltj] by blast
          then have "truthy (doi (store st ! j))" using tj by simp
          then have "doi_key (store st ! j) \<noteq> doi_key p" using fresh [OF _ ltj] b by blast
          then show ?thesis using ki doi_key_cong [OF ej] by simp
        qed
      qed
    qed
    show ?thesis
    proof (intro ballI impI)
      fix i j assume i: "i \<in> set (unique ?st)" and j: "j \<in> set (unique ?st)"
        and h: "i \<noteq> j \<and> truthy (doi (store ?st ! i)) \<and> truthy (doi (store ?st ! j))"
      from j show "doi_key (store ?st ! i) \<noteq> doi_key (store ?st ! j)"
      proof (cases rule: step_unique_cases)
        case old
        then show ?thesis using pair [OF i] h by simp
      next
        case new
        from i have "i \<in> set (unique st)"
        proof (cases rule: step_unique_cases)
          case old then show ?thesis .
        next
          case new then show ?thesis using \<open>j = ?n\<close> h by simp
        qed
        then have "doi_key (store ?st ! j) \<noteq> doi_key (store ?st ! i)"
          using pair [OF j] h by simp
        then show ?thesis by simp
      qed
    qed
  qed
  show ?thesis unfolding inv_doi_def
    apply (intro conjI) apply (fact 1) apply (fact 2) apply (fact 3) done
qed

subsection \<open>The whole loop\<close>

lemma dedup_run_snoc: "dedup_run (ps @ [p]) = dedup_step (dedup_run ps) p"
  by (simp add: dedup_run_def)

lemma dedup_init_inv: "inv_struct [] dedup_init \<and> inv_reg [] dedup_init \<and> inv_doi dedup_init"
  by (simp add: inv_struct_def inv_reg_def inv_doi_def dedup_init_def)

lemma dedup_run_inv:
  "inv_struct ps (dedup_run ps) \<and> inv_reg ps (dedup_run ps) \<and> inv_doi (dedup_run ps)"
proof (induction ps rule: rev_induct)
  case Nil
  show ?case using dedup_init_inv by (simp add: dedup_run_def)
next
  case (snoc p ps)
  then have s: "inv_struct ps (dedup_run ps)" and r: "inv_reg ps (dedup_run ps)"
    and d: "inv_doi (dedup_run ps)" by simp_all
  show ?case unfolding dedup_run_snoc
    using inv_struct_step [OF s] inv_reg_step [OF s r] inv_doi_step [OF s d] by simp
qed

lemma length_deduplicate: "length (deduplicate L) = length (survivors L)"
  by (simp add: deduplicate_def)

lemma nth_deduplicate:
  "a < length (survivors L) \<Longrightarrow> deduplicate L ! a = store (dedup_run L) ! (survivors L ! a)"
  by (simp add: deduplicate_def)

lemma survivors_distinct: "distinct (survivors L)"
  using dedup_run_inv [of L] by (simp add: inv_struct_def survivors_def)

lemma survivors_lt: "i \<in> set (survivors L) \<Longrightarrow> i < length L"
  using dedup_run_inv [of L] by (simp add: inv_struct_def survivors_def)

lemma survivor_title:
  assumes "i \<in> set (survivors L)"
  shows "title (store (dedup_run L) ! i) = title (L ! i)"
    and "by_title (dedup_run L) (title_key (L ! i)) = Some i"
proof -
  have lt: "i < length L" using assms by (rule survivors_lt)
  show "title (store (dedup_run L) ! i) = title (L ! i)"
    using dedup_run_inv [of L] lt unfolding inv_struct_def by fast
  show "by_title (dedup_run L) (title_key (L ! i)) = Some i"
    using dedup_run_inv [of L] assms unfolding inv_reg_def survivors_def by fast
qed

lemma survivor_pmid:
  assumes "i \<in> set (survivors L)" and "truthy (pmid (L ! i))"
  shows "pmid (store (dedup_run L) ! i) = pmid (L ! i)"
    and "by_pmid (dedup_run L) (pmid_key (L ! i)) = Some i"
proof -
  have lt: "i < length L" using assms(1) by (rule survivors_lt)
  show "pmid (store (dedup_run L) ! i) = pmid (L ! i)"
    using dedup_run_inv [of L] lt assms(2) unfolding inv_struct_def by fast
  show "by_pmid (dedup_run L) (pmid_key (L ! i)) = Some i"
    using dedup_run_inv [of L] assms unfolding inv_reg_def survivors_def by fast
qed

lemma survivor_arxiv:
  assumes "i \<in> set (survivors L)" and "truthy (arxiv_id (L ! i))"
  shows "arxiv_id (store (dedup_run L) ! i) = arxiv_id (L ! i)"
    and "by_arxiv (dedup_run L) (arxiv_key (L ! i)) = Some i"
proof -
  have lt: "i < length L" using assms(1) by (rule survivors_lt)
  show "arxiv_id (store (dedup_run L) ! i) = arxiv_id (L ! i)"
    using dedup_run_inv [of L] lt assms(2) unfolding inv_struct_def by fast
  show "by_arxiv (dedup_run L) (arxiv_key (L ! i)) = Some i"
    using dedup_run_inv [of L] assms unfolding inv_reg_def survivors_def by fast
qed

lemma survivor_doi:
  assumes "i \<in> set (survivors L)" and "j \<in> set (survivors L)" and "i \<noteq> j"
    and "truthy (doi (store (dedup_run L) ! i))" and "truthy (doi (store (dedup_run L) ! j))"
  shows "doi_key (store (dedup_run L) ! i) \<noteq> doi_key (store (dedup_run L) ! j)"
  using dedup_run_inv [of L] assms unfolding inv_doi_def survivors_def by fast

lemma pmid_key_cong: "pmid p = pmid q \<Longrightarrow> pmid_key p = pmid_key q"
  by (simp add: pmid_key_def)

lemma arxiv_key_cong: "arxiv_id p = arxiv_id q \<Longrightarrow> arxiv_key p = arxiv_key q"
  by (simp add: arxiv_key_def)

lemma survivor_titles_differ:
  assumes "i \<in> set (survivors L)" and "j \<in> set (survivors L)" and "i \<noteq> j"
  shows "title_key (L ! i) \<noteq> title_key (L ! j)"
  using survivor_title(2) [OF assms(1)] survivor_title(2) [OF assms(2)] assms(3) by auto

text \<open>
  C1 fails for a PMID (or arXiv id) that a merge wrote into a survivor: the second paper
  of \<open>backfill_input\<close> merges into the first on the DOI and hands it PMID 1 without that
  key entering \<open>by_pmid\<close>, so the third paper, with the same PMID, survives as well.
\<close>

theorem C1_backfilled_pmid_counterexample:
  "map (\<lambda>p. (truthy (pmid p), pmid_key p)) (deduplicate backfill_input)
     = [(True, ''1''), (True, ''1'')]"
  by code_simp

text \<open>
  C1 (amended): for any two distinct papers \<open>P\<close> and \<open>Q\<close> of the list \<open>_deduplicate\<close>
  returns: when both have a DOI, their lowercased and trimmed DOIs differ; when both
  arrived in the input with a PMID (\<open>P0\<close>, \<open>Q0\<close> are the papers as they arrived), they
  still carry those PMIDs and the trimmed PMIDs differ; the same for the arXiv id they
  arrived with; and their normalized titles differ.
\<close>

theorem C1_survivors_keys_differ:
  assumes "a < length (deduplicate L)" and "b < length (deduplicate L)" and "a \<noteq> b"
  shows "(let P = deduplicate L ! a; Q = deduplicate L ! b;
              P0 = L ! (survivors L ! a); Q0 = L ! (survivors L ! b)
          in (truthy (doi P) \<and> truthy (doi Q) \<longrightarrow> doi_key P \<noteq> doi_key Q)
           \<and> (truthy (pmid P0) \<and> truthy (pmid Q0)
                \<longrightarrow> pmid P = pmid P0 \<and> pmid Q = pmid Q0 \<and> pmid_key P \<noteq> pmid_key Q)
           \<and> (truthy (arxiv_id P0) \<and> truthy (arxiv_id Q0)
                \<longrightarrow> arxiv_id P = arxiv_id P0 \<and> arxiv_id Q = arxiv_id Q0
                    \<and> arxiv_key P \<noteq> arxiv_key Q)
           \<and> normalize_title (title P) \<noteq> normalize_title (title Q))"
proof -
  let ?i = "survivors L ! a" and ?j = "survivors L ! b"
  let ?S = "store (dedup_run L)"
  have la: "a < length (survivors L)" and lb: "b < length (survivors L)"
    using assms by (simp_all add: length_deduplicate)
  have i: "?i \<in> set (survivors L)" and j: "?j \<in> set (survivors L)" using la lb by simp_all
  have ne: "?i \<noteq> ?j" using survivors_distinct [of L] la lb assms(3) by (simp add: nth_eq_iff_index_eq)
  have P: "deduplicate L ! a = ?S ! ?i" and Q: "deduplicate L ! b = ?S ! ?j"
    using la lb by (simp_all add: nth_deduplicate)
  have t1: "truthy (doi (?S ! ?i)) \<and> truthy (doi (?S ! ?j)) \<longrightarrow> doi_key (?S ! ?i) \<noteq> doi_key (?S ! ?j)"
    using survivor_doi [OF i j ne] by simp
  have t2: "truthy (pmid (L ! ?i)) \<and> truthy (pmid (L ! ?j))
        \<longrightarrow> pmid (?S ! ?i) = pmid (L ! ?i) \<and> pmid (?S ! ?j) = pmid (L ! ?j)
            \<and> pmid_key (?S ! ?i) \<noteq> pmid_key (?S ! ?j)"
  proof
    assume h: "truthy (pmid (L ! ?i)) \<and> truthy (pmid (L ! ?j))"
    have ei: "pmid (?S ! ?i) = pmid (L ! ?i)" using survivor_pmid(1) [OF i] h by simp
    have ej: "pmid (?S ! ?j) = pmid (L ! ?j)" using survivor_pmid(1) [OF j] h by simp
    have "pmid_key (L ! ?i) \<noteq> pmid_key (L ! ?j)"
      using survivor_pmid(2) [OF i] survivor_pmid(2) [OF j] h ne by auto
    then show "pmid (?S ! ?i) = pmid (L ! ?i) \<and> pmid (?S ! ?j) = pmid (L ! ?j)
            \<and> pmid_key (?S ! ?i) \<noteq> pmid_key (?S ! ?j)"
      using ei ej pmid_key_cong [OF ei] pmid_key_cong [OF ej] by simp
  qed
  have t3: "truthy (arxiv_id (L ! ?i)) \<and> truthy (arxiv_id (L ! ?j))
        \<longrightarrow> arxiv_id (?S ! ?i) = arxiv_id (L ! ?i) \<and> arxiv_id (?S ! ?j) = arxiv_id (L ! ?j)
            \<and> arxiv_key (?S ! ?i) \<noteq> arxiv_key (?S ! ?j)"
  proof
    assume h: "truthy (arxiv_id (L ! ?i)) \<and> truthy (arxiv_id (L ! ?j))"
    have ei: "arxiv_id (?S ! ?i) = arxiv_id (L ! ?i)" using survivor_arxiv(1) [OF i] h by simp
    have ej: "arxiv_id (?S ! ?j) = arxiv_id (L ! ?j)" using survivor_arxiv(1) [OF j] h by simp
    have "arxiv_key (L ! ?i) \<noteq> arxiv_key (L ! ?j)"
      using survivor_arxiv(2) [OF i] survivor_arxiv(2) [OF j] h ne by auto
    then show "arxiv_id (?S ! ?i) = arxiv_id (L ! ?i) \<and> arxiv_id (?S ! ?j) = arxiv_id (L ! ?j)
            \<and> arxiv_key (?S ! ?i) \<noteq> arxiv_key (?S ! ?j)"
      using ei ej arxiv_key_cong [OF ei] arxiv_key_cong [OF ej] by simp
  qed
  have t4: "normalize_title (title (?S ! ?i)) \<noteq> normalize_title (title (?S ! ?j))"
    using survivor_titles_differ [OF i j ne] survivor_title(1) [OF i] survivor_title(1) [OF j]
    by (simp add: title_key_def)
  show ?thesis unfolding Let_def P Q using t1 t2 t3 t4 by simp
qed

theorem C1_survivors_keys_differ_witness:
  "0 < length (deduplicate distinct_input) \<and> 1 < length (deduplicate distinct_input)
   \<and> truthy (doi (deduplicate distinct_input ! 0)) \<and> truthy (doi (deduplicate distinct_input ! 1))
   \<and> doi_key (deduplicate distinct_input ! 0) \<noteq> doi_key (deduplicate distinct_input ! 1)
   \<and> truthy (pmid (distinct_input ! (survivors distinct_input ! 0)))
   \<and> truthy (pmid (distinct_input ! (survivors distinct_input ! 1)))
   \<and> pmid_key (deduplicate distinct_input ! 0) \<noteq> pmid_key (deduplicate distinct_input ! 1)
   \<and> truthy (arxiv_id (distinct_input ! (survivors distinct_input ! 0)))
   \<and> truthy (arxiv_id (distinct_input ! (survivors distinct_input ! 1)))
   \<and> arxiv_key (deduplicate distinct_input ! 0) \<noteq> arxiv_key (deduplicate distinct_input ! 1)
   \<and> normalize_title (title (deduplicate distinct_input ! 0))
       \<noteq> normalize_title (title (deduplicate distinct_input ! 1))"
proof -
  have sv: "survivors distinct_input = [0, 1]" by code_simp
  have len: "length (deduplicate distinct_input) = 2" by (simp add: length_deduplicate sv)
  have td: "map (\<lambda>p. truthy (doi p)) (deduplicate distinct_input) = [True, True]" by code_simp
  have "map (\<lambda>p. truthy (doi p)) (deduplicate distinct_input) ! 0 = True"
    and "map (\<lambda>p. truthy (doi p)) (deduplicate distinct_input) ! 1 = True"
    unfolding td by simp_all
  then have d: "truthy (doi (deduplicate distinct_input ! 0))"
    "truthy (doi (deduplicate distinct_input ! 1))"
    using len by simp_all
  have o: "truthy (pmid (distinct_input ! 0)) \<and> truthy (pmid (distinct_input ! 1))
           \<and> truthy (arxiv_id (distinct_input ! 0)) \<and> truthy (arxiv_id (distinct_input ! 1))"
    by (simp add: distinct_input_def ex_full_a_def ex_full_b_def truthy_def)
  show ?thesis
    using len d o C1_survivors_keys_differ [of 0 distinct_input 1]
    by (simp add: Let_def sv)
qed

text \<open>
  C3 fails: the two papers of \<open>same_title_input\<close> have equal normalized titles and
  different DOIs, and no other identifier; the second misses on its DOI, reaches the
  title check, hits the first paper's title key and is merged into it.
\<close>

theorem C3_same_title_counterexample:
  "normalize_title (title ex_title_a) = normalize_title (title ex_title_b)
   \<and> truthy (doi ex_title_a) \<and> truthy (doi ex_title_b)
   \<and> doi_key ex_title_a \<noteq> doi_key ex_title_b
   \<and> map paper_id (deduplicate same_title_input) = [paper_id ex_title_a]"
  by code_simp

text \<open>
  C3 (amended): for every input list in which two papers have equal normalized titles,
  \<open>_deduplicate\<close> does not keep both, whether or not their DOIs differ: at most one of
  the two is a record of its output.
\<close>

theorem C3_same_title_not_both:
  assumes "i < length L" and "j < length L" and "i \<noteq> j"
    and "normalize_title (title (L ! i)) = normalize_title (title (L ! j))"
  shows "\<not> (i \<in> set (survivors L) \<and> j \<in> set (survivors L))"
  using survivor_titles_differ [of i L j] assms by (auto simp: title_key_def)


theorem C3_same_title_not_both_witness:
  "0 < length same_title_input \<and> 1 < length same_title_input
   \<and> normalize_title (title (same_title_input ! 0)) = normalize_title (title (same_title_input ! 1))
   \<and> \<not> (0 \<in> set (survivors same_title_input) \<and> 1 \<in> set (survivors same_title_input))"
proof -
  have h: "normalize_title (title (same_title_input ! 0))
             = normalize_title (title (same_title_input ! 1))
           \<and> length same_title_input = 2"
    by code_simp
  show ?thesis using h C3_same_title_not_both [of 0 same_title_input 1] by simp
qed

subsection \<open>Lists without duplicates are left as they are\<close>

lemma dedup_doi_distinct:
  "distinct (map doi_key (filter (\<lambda>p. truthy (doi p)) (deduplicate L)))"
proof -
  let ?S = "store (dedup_run L)"
  let ?U = "filter (\<lambda>i. truthy (doi (?S ! i))) (survivors L)"
  have e: "map doi_key (filter (\<lambda>p. truthy (doi p)) (deduplicate L))
             = map (\<lambda>i. doi_key (?S ! i)) ?U"
    by (simp add: deduplicate_def filter_map comp_def)
  have "distinct ?U" using survivors_distinct by simp
  moreover have "inj_on (\<lambda>i. doi_key (?S ! i)) (set ?U)"
  proof (rule inj_onI)
    fix i j assume "i \<in> set ?U" and "j \<in> set ?U" and k: "doi_key (?S ! i) = doi_key (?S ! j)"
    then have i: "i \<in> set (survivors L)" and j: "j \<in> set (survivors L)"
      and ti: "truthy (doi (?S ! i))" and tj: "truthy (doi (?S ! j))" by simp_all
    show "i = j"
    proof (rule ccontr)
      assume "i \<noteq> j"
      then show False using survivor_doi [OF i j _ ti tj] k by simp
    qed
  qed
  ultimately show ?thesis unfolding e by (simp add: distinct_map)
qed

lemma dedup_title_distinct: "distinct (map title_key (deduplicate L))"
proof -
  let ?S = "store (dedup_run L)"
  have e: "map title_key (deduplicate L) = map (\<lambda>i. title_key (?S ! i)) (survivors L)"
    by (simp add: deduplicate_def comp_def)
  have "inj_on (\<lambda>i. title_key (?S ! i)) (set (survivors L))"
  proof (rule inj_onI)
    fix i j assume i: "i \<in> set (survivors L)" and j: "j \<in> set (survivors L)"
      and k: "title_key (?S ! i) = title_key (?S ! j)"
    have "title_key (L ! i) = title_key (L ! j)"
      using k survivor_title(1) [OF i] survivor_title(1) [OF j] by (simp add: title_key_def)
    then show "i = j" using survivor_titles_differ [OF i j] by auto
  qed
  then show ?thesis unfolding e using survivors_distinct by (simp add: distinct_map)
qed

lemma dup_free_snoc:
  assumes "dup_free (ps @ [p])"
  shows "dup_free ps"
    and "truthy (doi p) \<Longrightarrow> doi_key p \<notin> doi_key ` {q \<in> set ps. truthy (doi q)}"
    and "truthy (pmid p) \<Longrightarrow> pmid_key p \<notin> pmid_key ` {q \<in> set ps. truthy (pmid q)}"
    and "truthy (arxiv_id p) \<Longrightarrow> arxiv_key p \<notin> arxiv_key ` {q \<in> set ps. truthy (arxiv_id q)}"
    and "title_key p \<notin> title_key ` set ps"
  using assms by (auto simp: dup_free_def)

lemma key_doms_step:
  assumes k: "key_doms ps st" and f: "dup_free (ps @ [p])"
  shows "key_doms (ps @ [p]) (dedup_step st p)"
proof -
  have st: "store st = ps" and un: "unique st = [0..<length ps]"
    and dd: "dom (by_doi st) = doi_key ` {p \<in> set ps. truthy (doi p)}"
    and dp: "dom (by_pmid st) = pmid_key ` {p \<in> set ps. truthy (pmid p)}"
    and da: "dom (by_arxiv st) = arxiv_key ` {p \<in> set ps. truthy (arxiv_id p)}"
    and dt: "dom (by_title st) = title_key ` set ps"
    using k by (simp_all add: key_doms_def)
  have nd: "truthy (doi p) \<Longrightarrow> by_doi st (doi_key p) = None"
    using dup_free_snoc(2) [OF f] dd by (auto simp: domIff)
  have np: "truthy (pmid p) \<Longrightarrow> by_pmid st (pmid_key p) = None"
    using dup_free_snoc(3) [OF f] dp by (auto simp: domIff)
  have na: "truthy (arxiv_id p) \<Longrightarrow> by_arxiv st (arxiv_key p) = None"
    using dup_free_snoc(4) [OF f] da by (auto simp: domIff)
  have nt: "by_title st (title_key p) = None"
    using dup_free_snoc(5) [OF f] dt by (auto simp: domIff)
  have tg: "merge_target st p = None" using nd np na nt by (simp add: merge_target_def)
  have 1: "store (dedup_step st p) = ps @ [p]" using tg st by (simp add: step_store)
  have 2: "unique (dedup_step st p) = [0..<length (ps @ [p])]"
    using tg st un by (simp add: step_unique)
  have 3: "dom (by_doi (dedup_step st p)) = doi_key ` {q \<in> set (ps @ [p]). truthy (doi q)}"
    using nd dd by (auto simp: step_by_doi)
  have 4: "dom (by_pmid (dedup_step st p)) = pmid_key ` {q \<in> set (ps @ [p]). truthy (pmid q)}"
    using nd np dp by (auto simp: step_by_pmid)
  have 5: "dom (by_arxiv (dedup_step st p))
             = arxiv_key ` {q \<in> set (ps @ [p]). truthy (arxiv_id q)}"
    using nd np na da by (auto simp: step_by_arxiv)
  have 6: "dom (by_title (dedup_step st p)) = title_key ` set (ps @ [p])"
    using nd np na nt dt by (auto simp: step_by_title)
  show ?thesis unfolding key_doms_def
    apply (intro conjI) apply (fact 1) apply (fact 2) apply (fact 3) apply (fact 4)
    apply (fact 5) apply (fact 6) done
qed

lemma key_doms_run: "dup_free ps \<Longrightarrow> key_doms ps (dedup_run ps)"
proof (induction ps rule: rev_induct)
  case Nil
  show ?case by (simp add: key_doms_def dedup_run_def dedup_init_def)
next
  case (snoc p ps)
  have "dup_free ps" using snoc.prems by (rule dup_free_snoc(1))
  then have "key_doms ps (dedup_run ps)" by (rule snoc.IH)
  then show ?case unfolding dedup_run_snoc using snoc.prems by (rule key_doms_step)
qed

lemma deduplicate_dup_free: "dup_free ps \<Longrightarrow> deduplicate ps = ps"
  using key_doms_run [of ps] by (simp add: key_doms_def deduplicate_def survivors_def map_nth)

text \<open>A list that the loop leaves as it is has pairwise distinct keys.\<close>

lemma survivors_all:
  assumes "deduplicate M = M"
  shows "set (survivors M) = {..<length M}"
proof -
  have len: "length (survivors M) = length M"
    using assms length_deduplicate [of M] by simp
  have sub: "set (survivors M) \<subseteq> {..<length M}" using survivors_lt by auto
  have "card (set (survivors M)) = length M"
    using survivors_distinct [of M] len by (simp add: distinct_card)
  then show ?thesis using sub by (simp add: card_subset_eq)
qed

lemma filter_by_index: "filter P M = map (\<lambda>i. M ! i) (filter (\<lambda>i. P (M ! i)) [0..<length M])"
proof -
  have "filter P (map (\<lambda>i. M ! i) [0..<length M])
          = map (\<lambda>i. M ! i) (filter (\<lambda>i. P (M ! i)) [0..<length M])"
    by (simp add: filter_map comp_def)
  then show ?thesis by (simp add: map_nth)
qed

lemma fixed_point_pmid_distinct:
  assumes "deduplicate M = M"
  shows "distinct (map pmid_key (filter (\<lambda>p. truthy (pmid p)) M))"
proof -
  let ?I = "filter (\<lambda>i. truthy (pmid (M ! i))) [0..<length M]"
  have e: "map pmid_key (filter (\<lambda>p. truthy (pmid p)) M) = map (\<lambda>i. pmid_key (M ! i)) ?I"
    by (subst filter_by_index) (simp add: comp_def)
  have "inj_on (\<lambda>i. pmid_key (M ! i)) (set ?I)"
  proof (rule inj_onI)
    fix i j assume "i \<in> set ?I" and "j \<in> set ?I" and k: "pmid_key (M ! i) = pmid_key (M ! j)"
    then have i: "i \<in> set (survivors M)" and j: "j \<in> set (survivors M)"
      and ti: "truthy (pmid (M ! i))" and tj: "truthy (pmid (M ! j))"
      using survivors_all [OF assms] by simp_all
    have a: "by_pmid (dedup_run M) (pmid_key (M ! i)) = Some j"
      unfolding k using j tj by (rule survivor_pmid(2))
    have b: "by_pmid (dedup_run M) (pmid_key (M ! i)) = Some i"
      using i ti by (rule survivor_pmid(2))
    have "Some i = Some j" using b [symmetric] a by (rule trans)
    then show "i = j" by (rule option.inject [THEN iffD1])
  qed
  then show ?thesis unfolding e by (simp add: distinct_map)
qed

lemma fixed_point_arxiv_distinct:
  assumes "deduplicate M = M"
  shows "distinct (map arxiv_key (filter (\<lambda>p. truthy (arxiv_id p)) M))"
proof -
  let ?I = "filter (\<lambda>i. truthy (arxiv_id (M ! i))) [0..<length M]"
  have e: "map arxiv_key (filter (\<lambda>p. truthy (arxiv_id p)) M) = map (\<lambda>i. arxiv_key (M ! i)) ?I"
    by (subst filter_by_index) (simp add: comp_def)
  have "inj_on (\<lambda>i. arxiv_key (M ! i)) (set ?I)"
  proof (rule inj_onI)
    fix i j assume "i \<in> set ?I" and "j \<in> set ?I" and k: "arxiv_key (M ! i) = arxiv_key (M ! j)"
    then have i: "i \<in> set (survivors M)" and j: "j \<in> set (survivors M)"
      and ti: "truthy (arxiv_id (M ! i))" and tj: "truthy (arxiv_id (M ! j))"
      using survivors_all [OF assms] by simp_all
    have a: "by_arxiv (dedup_run M) (arxiv_key (M ! i)) = Some j"
      unfolding k using j tj by (rule survivor_arxiv(2))
    have b: "by_arxiv (dedup_run M) (arxiv_key (M ! i)) = Some i"
      using i ti by (rule survivor_arxiv(2))
    have "Some i = Some j" using b [symmetric] a by (rule trans)
    then show "i = j" by (rule option.inject [THEN iffD1])
  qed
  then show ?thesis unfolding e by (simp add: distinct_map)
qed

text \<open>
  C4 fails on \<open>backfill_input\<close>: the first pass returns two papers that both carry
  PMID 1, and the second pass merges them.
\<close>

theorem C4_not_idempotent_counterexample:
  "deduplicate (deduplicate backfill_input) \<noteq> deduplicate backfill_input"
proof -
  have "length (deduplicate (deduplicate backfill_input)) = 1
        \<and> length (deduplicate backfill_input) = 2"
    by code_simp
  then show ?thesis by auto
qed

text \<open>
  C4 (amended): for every list of papers \<open>L\<close> whose deduplicated list has no two papers
  with the same trimmed PMID and no two with the same lowercased and trimmed arXiv id,
  \<open>_deduplicate(_deduplicate(L))\<close> equals \<open>_deduplicate(L)\<close> elementwise.
\<close>

theorem C4_idempotent_when_ids_distinct:
  assumes "distinct (map pmid_key (filter (\<lambda>p. truthy (pmid p)) (deduplicate L)))"
    and "distinct (map arxiv_key (filter (\<lambda>p. truthy (arxiv_id p)) (deduplicate L)))"
  shows "deduplicate (deduplicate L) = deduplicate L"
proof -
  have "dup_free (deduplicate L)"
    unfolding dup_free_def using assms dedup_doi_distinct dedup_title_distinct by simp
  then show ?thesis by (rule deduplicate_dup_free)
qed

theorem C4_idempotent_witness:
  "distinct (map pmid_key (filter (\<lambda>p. truthy (pmid p)) (deduplicate repeat_input)))
   \<and> distinct (map arxiv_key (filter (\<lambda>p. truthy (arxiv_id p)) (deduplicate repeat_input)))
   \<and> deduplicate (deduplicate repeat_input) = deduplicate repeat_input"
proof -
  have h1: "distinct (map pmid_key (filter (\<lambda>p. truthy (pmid p)) (deduplicate repeat_input)))"
    by code_simp
  have h2: "distinct (map arxiv_key (filter (\<lambda>p. truthy (arxiv_id p)) (deduplicate repeat_input)))"
    by code_simp
  have "deduplicate (deduplicate repeat_input) = deduplicate repeat_input"
    using h1 h2 by (rule C4_idempotent_when_ids_distinct)
  then show ?thesis using h1 h2 by (intro conjI)
qed

subsection \<open>Keywords\<close>





subsection \<open>Paged search\<close>






subsection \<open>Filters\<close>

lemma total_score_nonneg: "0 \<le> total_score rs"
  by (simp add: total_score_def Let_def)

lemma reliability_ok_nonpos:
  "\<not> 0 < min_reliability config \<Longrightarrow> reliability_ok config p"
  using total_score_nonneg [of "reliability p"]
  by (simp add: reliability_ok_def reliability_score_def)

lemma filter_reliability:
  "(if min_reliability config > 0
    then filter (\<lambda>p. reliability_score p \<ge> min_reliability config) xs else xs)
   = filter (reliability_ok config) xs"
proof (cases "0 < min_reliability config")
  case True
  have "reliability_ok config = (\<lambda>p. min_reliability config \<le> reliability_score p)"
    by (auto simp: reliability_ok_def fun_eq_iff)
  then show ?thesis using True by simp
next
  case False
  then have "filter (reliability_ok config) xs = xs" by (simp add: reliability_ok_nonpos)
  then show ?thesis using False by simp
qed

lemma filter_years:
  "(case year_end config of
      None \<Rightarrow> (case year_start config of
                  None \<Rightarrow> xs
                | Some s \<Rightarrow> if s \<noteq> 0 then filter (year_at_least s) xs else xs)
    | Some e \<Rightarrow> if e \<noteq> 0
               then filter (year_at_most e)
                      (case year_start config of
                         None \<Rightarrow> xs
                       | Some s \<Rightarrow> if s \<noteq> 0 then filter (year_at_least s) xs else xs)
               else (case year_start config of
                       None \<Rightarrow> xs
                     | Some s \<Rightarrow> if s \<noteq> 0 then filter (year_at_least s) xs else xs))
   = filter (nonzero_year_ok config) xs"
proof -
  let ?A = "\<lambda>p. case year_start config of None \<Rightarrow> True
              | Some s \<Rightarrow> if s \<noteq> 0 then year_at_least s p else True"
  let ?B = "\<lambda>p. case year_end config of None \<Rightarrow> True
              | Some e \<Rightarrow> if e \<noteq> 0 then year_at_most e p else True"
  have pw: "nonzero_year_ok config p = (?A p \<and> ?B p)" for p
    by (auto simp: nonzero_year_ok_def year_at_least_def year_at_most_def truthy_int_def
        split: option.splits)
  have "filter (nonzero_year_ok config) xs = filter (\<lambda>p. ?A p \<and> ?B p) xs"
    by (rule filter_cong) (simp_all add: pw)
  also have "\<dots> = filter ?B (filter ?A xs)" by simp
  also have "filter ?A xs = (case year_start config of
                  None \<Rightarrow> xs
                | Some s \<Rightarrow> if s \<noteq> 0 then filter (year_at_least s) xs else xs)"
    by (simp split: option.splits)
  also have "filter ?B (case year_start config of
                  None \<Rightarrow> xs
                | Some s \<Rightarrow> if s \<noteq> 0 then filter (year_at_least s) xs else xs)
     = (case year_end config of
      None \<Rightarrow> (case year_start config of
                  None \<Rightarrow> xs
                | Some s \<Rightarrow> if s \<noteq> 0 then filter (year_at_least s) xs else xs)
    | Some e \<Rightarrow> if e \<noteq> 0
               then filter (year_at_most e)
                      (case year_start config of
                         None \<Rightarrow> xs
                       | Some s \<Rightarrow> if s \<noteq> 0 then filter (year_at_least s) xs else xs)
               else (case year_start config of
                       None \<Rightarrow> xs
                     | Some s \<Rightarrow> if s \<noteq> 0 then filter (year_at_least s) xs else xs))"
    by (cases "year_end config") simp_all
  finally show ?thesis by simp
qed

lemma filter_preprints:
  "(if \<not> include_preprints config then filter (\<lambda>p. source_type p \<noteq> PREPRINT) xs else xs)
   = filter (preprint_ok config) xs"
proof -
  have "preprint_ok config = (\<lambda>p. include_preprints config \<or> source_type p \<noteq> PREPRINT)"
    by (auto simp: preprint_ok_def fun_eq_iff)
  then show ?thesis by simp
qed

text \<open>
  C6 fails when a year bound is 0: \<open>if config.year_start:\<close> is false for 0, so no year
  filter runs and a paper without a year stays, although \<open>yearStart\<close> is set.
\<close>

theorem C6_zero_bound_counterexample:
  "apply_filters zero_start_config [new_paper ''arxiv_1'' ''Alpha'']
     \<noteq> filters_in_spec_order spec_year_ok zero_start_config [new_paper ''arxiv_1'' ''Alpha'']"
  by (simp add: apply_filters_def filters_in_spec_order_def spec_year_ok_def zero_start_config_def
      default_config_def new_paper_def preprint_ok_def reliability_ok_def reliability_score_def
      total_score_def default_reliability_def)

text \<open>
  C6 (amended): the final list is the ranked list filtered by the year range, then by
  minimum reliability, then by preprint exclusion, where a year bound counts as set
  only when it is not 0, a paper's year counts as present only when it is not 0, and a
  paper with no year is dropped whenever such a bound is set.  (The code applies the
  reliability filter first; the resulting list is the same.)
\<close>

theorem C6_filters_equal_spec_order:
  "apply_filters config ranked_papers
     = filters_in_spec_order nonzero_year_ok config ranked_papers"
proof -
  let ?r1 = "filter (reliability_ok config) ranked_papers"
  have "apply_filters config ranked_papers
          = filter (preprint_ok config) (filter (nonzero_year_ok config) ?r1)"
    unfolding apply_filters_def Let_def filter_reliability filter_preprints
    using filter_years [where config = config and xs = ?r1] by (simp split: option.splits)
  also have "\<dots> = filters_in_spec_order nonzero_year_ok config ranked_papers"
    by (simp add: filters_in_spec_order_def conj_commute)
  finally show ?thesis .
qed

theorem C6_filters_witness:
  "apply_filters strict_config ex_ranked = filters_in_spec_order nonzero_year_ok strict_config ex_ranked
   \<and> map paper_id (apply_filters strict_config ex_ranked) = [''pubmed_1'']"
proof -
  have "map paper_id (apply_filters strict_config ex_ranked) = [''pubmed_1'']"
    by (simp add: apply_filters_def strict_config_def default_config_def ex_ranked_def
        new_paper_def year_at_least_def year_at_most_def reliability_score_def total_score_def
        default_reliability_def)
  then show ?thesis using C6_filters_equal_spec_order [of strict_config ex_ranked] by simp
qed

end
